theory Spec2Isabelle
  imports Main
begin

section \<open>Data model of ipc/glue/BackgroundImpl.cpp\<close>

text \<open>
  The embedding follows the release build of the file: \<open>MOZ_ASSERT\<close> lines are compiled
  out, \<open>MOZ_CRASH\<close> and a null dereference end the process and are the error branch of a
  result. Pointers are addresses (\<open>nat\<close>), a null pointer is \<open>None\<close>, \<open>new\<close> takes the
  next free address \<open>nextAddr\<close>. External calls that can fail take their outcome from an
  \<open>env\<close> record, one field per call site the source branches on; a dispatch the source
  wraps in \<open>MOZ_ALWAYS_TRUE\<close> always queues its task. Threads communicate by tasks only:
  \<open>tasks\<close> holds the event queues of all threads and of the IO message loop, merged into
  one list of (target, runnable) pairs in dispatch order, so every target sees its own
  tasks first in, first out. Calls into collaborators that are not in the file are
  written to \<open>trace\<close>, in the order the source makes them.
\<close>

datatype thread = MainThread | BackgroundThread nat | WorkerThread nat

datatype loop = MessageLoopOf thread

datatype target = EventTarget thread | IOMessageLoop

datatype error = MozCrash | NullDereference | UseAfterFree

type_synonym actor = nat
type_synonym child = nat
type_synonym arr = nat
type_synonym timer = nat
type_synonym transport = nat
type_synonym content = nat
type_synonym handle = nat
type_synonym callback = nat

text \<open>\<open>ChildImpl::ParentCreateCallback\<close>, the only \<open>ParentImpl::CreateCallback\<close> of the
  file: its address and its \<open>mEventTarget\<close>.\<close>

datatype CreateCallback = ParentCreateCallback nat thread

datatype runnable =
    RequestMessageLoopRunnable thread "loop option"
  | ShutdownBackgroundThreadRunnable
  | ForceCloseBackgroundActorsRunnable "arr option"
  | CreateCallbackRunnable CreateCallback
  | ConnectActorRunnable actor transport handle "arr option"
  | DestroyRunnable actor
  | MainThreadActorDestroyRunnable actor
  | DeleteTask transport
  | CreateActorRunnable thread
  | AlreadyCreatedCallbackRunnable
  | FailedCreateCallbackRunnable
  | OpenChildProcessActorRunnable child transport handle
  | OpenMainProcessActorRunnable child actor "loop option"
  | ReleaseRunnable child

datatype event =
    TimerCreated timer
  | ObserverAdded
  | ThreadCreated thread
  | ThreadShutdown thread
  | TimerInit timer
  | TimerCancel timer
  | CallbackSuccess CreateCallback actor "loop option"
  | CallbackFailure CreateCallback
  | ActorCreated callback child
  | ActorFailed callback
  | ParentClose actor
  | ChildClose child
  | BaseActorDestroy actor
  | BaseChildActorDestroy child
  | FlushPendingInterruptQueue child
  | CloseProcessHandle handle
  | TransportDeleted transport

record ParentImpl =
  mContent :: "content option"
  mTransport :: "transport option"
  mLiveActorArray :: "arr option"
  mIsOtherProcessActor :: bool
  mActorDestroyed :: bool
  mOtherProcess :: "handle option"
  mChannelOpened :: bool

record ChildImpl =
  mBoundThread :: "thread option"
  mActorDestroyedChild :: bool

record ThreadLocalInfo =
  mActor :: "child option"
  mCallbacks :: "callback list"
  mConsumerThreadLocal :: bool

record TimerCallbackClosure =
  mThread :: thread
  mLiveActors :: "arr option"

text \<open>The frame of \<open>ShutdownBackgroundThread\<close> while the main thread is inside its
  \<open>while (sLiveActorCount)\<close> loop: the closure on its stack, the timer it armed and
  whether that one-shot timer can still fire.\<close>

record SpinFrame =
  closure :: TimerCallbackClosure
  shutdownTimer :: timer
  timerPending :: bool

record env =
  e_CreateTimer :: bool
  e_GetObserverService :: bool
  e_AddObserver :: bool
  e_NewNamedThread :: bool
  e_DispatchMessageLoop :: bool
  e_DispatchConnect :: bool
  e_DispatchCallback :: "nat \<Rightarrow> bool"
  e_DispatchToMain :: bool
  e_DispatchOpen :: bool
  e_DispatchFailure :: bool
  e_DispatchCreateActor :: bool
  e_OpenProcessHandle :: "handle option"
  e_Open :: bool
  e_SetThreadPrivate :: bool
  e_PBackgroundOpen :: bool

record state =
  isMainProcess :: bool
  sBackgroundThread :: "thread option"
  sLiveActorsForBackgroundThread :: "arr option"
  sShutdownTimer :: "timer option"
  sBackgroundPRThread :: "thread option"
  sBackgroundThreadMessageLoop :: "loop option"
  sLiveActorCount :: int
  sShutdownObserverRegistered :: bool
  sShutdownHasStarted :: bool
  sPendingCallbacks :: "CreateCallback list option"
  sPendingTargets :: "thread list option"
  sShutdownHasStartedChild :: bool
  threadLocal :: "thread \<Rightarrow> ThreadLocalInfo option"
  parents :: "actor \<Rightarrow> ParentImpl option"
  children :: "child \<Rightarrow> ChildImpl option"
  arrays :: "arr \<Rightarrow> actor list"
  tasks :: "(target \<times> runnable) list"
  spin :: "SpinFrame option"
  nextAddr :: nat
  trace :: "event list"

text \<open>
  \<open>sLiveActorCount\<close> is a \<open>uint64_t\<close>. It is modelled as an unbounded integer with the
  decrement written as the source has it, so that a decrement at zero (which in C++ wraps
  to the largest value) shows as a negative number; 2^64 increments are out of reach.
  \<open>parents\<close> holds the \<open>ParentImpl\<close> objects whose main-thread teardown has not run; the
  reference counts themselves are not modelled.
\<close>

section \<open>Helpers\<close>

definition and_then :: "error + 'a \<Rightarrow> ('a \<Rightarrow> error + 'b) \<Rightarrow> error + 'b" where
  "and_then m f = (case m of Inl e \<Rightarrow> Inl e | Inr x \<Rightarrow> f x)"

definition Dispatch :: "target \<Rightarrow> runnable \<Rightarrow> state \<Rightarrow> state" where
  "Dispatch tg r s = s\<lparr>tasks := tasks s @ [(tg, r)]\<rparr>"

definition emit :: "event \<Rightarrow> state \<Rightarrow> state" where
  "emit ev s = s\<lparr>trace := trace s @ [ev]\<rparr>"

definition update_parent :: "actor \<Rightarrow> (ParentImpl \<Rightarrow> ParentImpl) \<Rightarrow> state \<Rightarrow> state" where
  "update_parent a f s = s\<lparr>parents := (parents s)(a := map_option f (parents s a))\<rparr>"

definition update_child :: "child \<Rightarrow> (ChildImpl \<Rightarrow> ChildImpl) \<Rightarrow> state \<Rightarrow> state" where
  "update_child c f s = s\<lparr>children := (children s)(c := map_option f (children s c))\<rparr>"

text \<open>\<open>MessageLoop::current()\<close> on thread \<open>t\<close>.\<close>

definition MessageLoop_current :: "thread \<Rightarrow> loop" where
  "MessageLoop_current t = MessageLoopOf t"

text \<open>The two constructors of \<open>ParentImpl\<close> (lines 244-263): for same-process actors
  and for other-process actors.\<close>

definition ParentImpl_new :: ParentImpl where
  "ParentImpl_new =
     \<lparr>mContent = None, mTransport = None, mLiveActorArray = None,
      mIsOtherProcessActor = False, mActorDestroyed = False, mOtherProcess = None,
      mChannelOpened = False\<rparr>"

definition ParentImpl_new_other :: "content \<Rightarrow> transport \<Rightarrow> ParentImpl" where
  "ParentImpl_new_other aContent aTransport =
     \<lparr>mContent = Some aContent, mTransport = Some aTransport, mLiveActorArray = None,
      mIsOtherProcessActor = True, mActorDestroyed = False, mOtherProcess = None,
      mChannelOpened = False\<rparr>"

definition ChildImpl_new :: ChildImpl where
  "ChildImpl_new = \<lparr>mBoundThread = None, mActorDestroyedChild = False\<rparr>"

section \<open>ParentImpl\<close>

text \<open>\<open>ParentImpl::CreateBackgroundThread\<close> (lines 1060-1123).\<close>

definition CreateBackgroundThread :: "env \<Rightarrow> state \<Rightarrow> bool \<times> state" where
  "CreateBackgroundThread e s =
     (if sShutdownHasStarted s then (False, s)
      else if sShutdownTimer s = None \<and> \<not> e_CreateTimer e then (False, s)
      else
        let newShutdownTimer = (if sShutdownTimer s = None then Some (nextAddr s) else None);
            s1 = (if sShutdownTimer s = None
                  then emit (TimerCreated (nextAddr s)) (s\<lparr>nextAddr := Suc (nextAddr s)\<rparr>)
                  else s)
        in if \<not> sShutdownObserverRegistered s1 \<and> \<not> e_GetObserverService e then (False, s1)
           else if \<not> sShutdownObserverRegistered s1 \<and> \<not> e_AddObserver e then (False, s1)
           else
             let s2 = (if \<not> sShutdownObserverRegistered s1
                       then (emit ObserverAdded s1)\<lparr>sShutdownObserverRegistered := True\<rparr>
                       else s1)
             in if \<not> e_NewNamedThread e then (False, s2)
                else
                  let thread = BackgroundThread (nextAddr s2);
                      s3 = emit (ThreadCreated thread) (s2\<lparr>nextAddr := Suc (nextAddr s2)\<rparr>)
                  in if \<not> e_DispatchMessageLoop e then (False, s3)
                     else
                       let s4 = Dispatch (EventTarget thread)
                                  (RequestMessageLoopRunnable thread None) s3;
                           s5 = s4\<lparr>sBackgroundThread := Some thread,
                                   sLiveActorsForBackgroundThread := Some (nextAddr s4),
                                   arrays := (arrays s4)(nextAddr s4 := []),
                                   nextAddr := Suc (nextAddr s4)\<rparr>;
                           s6 = (if sShutdownTimer s5 = None
                                 then s5\<lparr>sShutdownTimer := newShutdownTimer\<rparr> else s5)
                       in (True, s6))"

text \<open>\<open>ChildImpl::DispatchFailureCallback\<close> (lines 2036-2045) and
  \<open>ChildImpl::ParentCreateCallback::Failure\<close> (lines 1979-1990), the body behind the
  virtual call \<open>callback->Failure()\<close>.\<close>

definition DispatchFailureCallback :: "env \<Rightarrow> thread \<Rightarrow> state \<Rightarrow> state" where
  "DispatchFailureCallback e aEventTarget s =
     (if e_DispatchFailure e
      then Dispatch (EventTarget aEventTarget) FailedCreateCallbackRunnable s else s)"

fun CreateCallback_Failure :: "env \<Rightarrow> CreateCallback \<Rightarrow> state \<Rightarrow> state" where
  "CreateCallback_Failure e (ParentCreateCallback addr tgt) s =
     DispatchFailureCallback e tgt (emit (CallbackFailure (ParentCreateCallback addr tgt)) s)"

text \<open>\<open>ParentImpl::ShutdownBackgroundThread\<close> (lines 1126-1205). The function is in three
  parts: up to the \<open>while (sLiveActorCount)\<close> loop; the loop, in which the main thread
  keeps running its own events and which the model records as \<open>spin\<close>; and what follows
  the loop, \<open>ShutdownBackgroundThread_finish\<close>. \<open>nsIThread::Shutdown\<close> is recorded in the
  trace; the tasks already queued for that thread stay queued.\<close>

definition ShutdownBackgroundThread_finish :: "thread \<Rightarrow> state \<Rightarrow> state" where
  "ShutdownBackgroundThread_finish thread s =
     emit (ThreadShutdown thread)
       (Dispatch (EventTarget thread) ShutdownBackgroundThreadRunnable s)"

definition ShutdownBackgroundThread :: "env \<Rightarrow> state \<Rightarrow> error + state" where
  "ShutdownBackgroundThread e s =
     (let s1 = (case sPendingCallbacks s of
                  None \<Rightarrow> s
                | Some callbacks \<Rightarrow>
                    let sa = (if callbacks \<noteq> []
                              then fold (CreateCallback_Failure e) callbacks
                                     (s\<lparr>sPendingCallbacks := Some []\<rparr>)
                              else s)
                    in if sShutdownHasStarted sa then sa\<lparr>sPendingCallbacks := None\<rparr> else sa);
          shutdownTimer = (if sShutdownHasStarted s1 then sShutdownTimer s1 else None);
          s2 = (if sShutdownHasStarted s1 then s1\<lparr>sShutdownTimer := None\<rparr> else s1)
      in case sBackgroundThread s2 of
           None \<Rightarrow> Inr s2
         | Some thread \<Rightarrow>
             let liveActors = sLiveActorsForBackgroundThread s2;
                 s3 = s2\<lparr>sBackgroundThread := None,
                         sLiveActorsForBackgroundThread := None,
                         sBackgroundThreadMessageLoop := None\<rparr>
             in if sShutdownHasStarted s3 \<and> sLiveActorCount s3 \<noteq> 0
                then (case shutdownTimer of
                        None \<Rightarrow> Inl NullDereference
                      | Some tm \<Rightarrow>
                          Inr ((emit (TimerInit tm) s3)
                                 \<lparr>spin := Some \<lparr>closure = \<lparr>mThread = thread,
                                                            mLiveActors = liveActors\<rparr>,
                                                 shutdownTimer = tm,
                                                 timerPending = True\<rparr>\<rparr>))
                else Inr (ShutdownBackgroundThread_finish thread s3))"

text \<open>The loop test of \<open>ShutdownBackgroundThread\<close>, made after every event the main thread
  runs while it is inside the loop, and the statements after the loop (lines 1187-1203).\<close>

definition spin_check :: "state \<Rightarrow> state" where
  "spin_check s =
     (case spin s of
        None \<Rightarrow> s
      | Some f \<Rightarrow>
          if sLiveActorCount s \<noteq> 0 then s
          else ShutdownBackgroundThread_finish (mThread (closure f))
                 (emit (TimerCancel (shutdownTimer f)) (s\<lparr>spin := None\<rparr>)))"

text \<open>\<open>ParentImpl::Destroy\<close> (lines 1229-1241).\<close>

definition Destroy :: "actor \<Rightarrow> state \<Rightarrow> state" where
  "Destroy this s = Dispatch (EventTarget MainThread) (MainThreadActorDestroyRunnable this) s"

text \<open>\<open>ParentImpl::MainThreadActorDestroy\<close> (lines 1243-1278). \<open>XRE_GetIOMessageLoop()\<close>
  is the target \<open>IOMessageLoop\<close>. The final \<open>Release()\<close> drops the reference that kept
  the actor alive since it was constructed: the object leaves \<open>parents\<close>.\<close>

definition MainThreadActorDestroy :: "env \<Rightarrow> actor \<Rightarrow> state \<Rightarrow> error + state" where
  "MainThreadActorDestroy e this s =
     (let s1 = (case Option.bind (parents s this) mTransport of
                  Some tr \<Rightarrow>
                    update_parent this (\<lambda>p. p\<lparr>mTransport := None\<rparr>)
                      (Dispatch IOMessageLoop (DeleteTask tr) s)
                | None \<Rightarrow> s);
          s2 = (case Option.bind (parents s1 this) mOtherProcess of
                  Some h \<Rightarrow> emit (CloseProcessHandle h) s1
                | None \<Rightarrow> s1);
          s3 = update_parent this (\<lambda>p. p\<lparr>mContent := None\<rparr>) s2;
          s4 = s3\<lparr>sLiveActorCount := sLiveActorCount s3 - 1\<rparr>
      in and_then (if sLiveActorCount s4 = 0 then ShutdownBackgroundThread e s4 else Inr s4)
           (\<lambda>s5. Inr (s5\<lparr>parents := (parents s5)(this := None)\<rparr>)))"

text \<open>\<open>ParentImpl::Alloc\<close> (lines 980-1025); \<open>aContent\<close> and \<open>aTransport\<close> are not null.
  When the dispatch fails the new actor is released on return.\<close>

definition Alloc :: "env \<Rightarrow> content \<Rightarrow> transport \<Rightarrow> state \<Rightarrow> error + (actor option \<times> state)" where
  "Alloc e aContent aTransport s =
     (case e_OpenProcessHandle e of
        None \<Rightarrow> Inr (None, s)
      | Some processHandle \<Rightarrow>
          let (ok, s1) = (if sBackgroundThread s = None then CreateBackgroundThread e s
                          else (True, s))
          in if \<not> ok then Inr (None, s1)
             else
               let s2 = s1\<lparr>sLiveActorCount := sLiveActorCount s1 + 1\<rparr>;
                   actor = nextAddr s2;
                   s3 = s2\<lparr>nextAddr := Suc actor,
                           parents := (parents s2)(actor \<mapsto> ParentImpl_new_other aContent aTransport)\<rparr>
               in case sBackgroundThread s3 of
                    None \<Rightarrow> Inl NullDereference
                  | Some thread \<Rightarrow>
                      if \<not> e_DispatchConnect e
                      then
                        let s4 = s3\<lparr>sLiveActorCount := sLiveActorCount s3 - 1\<rparr>
                        in and_then (if sLiveActorCount s4 = 0 then ShutdownBackgroundThread e s4
                                     else Inr s4)
                             (\<lambda>s5. Inr (None, s5\<lparr>parents := (parents s5)(actor := None)\<rparr>))
                      else Inr (Some actor,
                                Dispatch (EventTarget thread)
                                  (ConnectActorRunnable actor aTransport processHandle
                                     (sLiveActorsForBackgroundThread s3)) s3))"

text \<open>\<open>ParentImpl::CreateActorForSameProcess\<close> (lines 1028-1057), on the main thread.\<close>

definition CreateActorForSameProcess :: "env \<Rightarrow> CreateCallback \<Rightarrow> state \<Rightarrow> bool \<times> state" where
  "CreateActorForSameProcess e aCallback s =
     (let (ok, s1) = (if sBackgroundThread s = None then CreateBackgroundThread e s
                      else (True, s))
      in if \<not> ok then (False, s1)
         else
           let s2 = s1\<lparr>sLiveActorCount := sLiveActorCount s1 + 1\<rparr>
           in if sBackgroundThreadMessageLoop s2 \<noteq> None
              then (True, Dispatch (EventTarget MainThread) (CreateCallbackRunnable aCallback) s2)
              else
                let s3 = (if sPendingCallbacks s2 = None
                          then s2\<lparr>sPendingCallbacks := Some []\<rparr> else s2)
                in (True, s3\<lparr>sPendingCallbacks :=
                               map_option (\<lambda>cbs. cbs @ [aCallback]) (sPendingCallbacks s3)\<rparr>))"

text \<open>\<open>ParentImpl::ShutdownTimerCallback\<close> (lines 1208-1227).\<close>

definition ShutdownTimerCallback :: "TimerCallbackClosure \<Rightarrow> state \<Rightarrow> state" where
  "ShutdownTimerCallback aClosure s =
     (let s1 = s\<lparr>sLiveActorCount := sLiveActorCount s + 1\<rparr>
      in Dispatch (EventTarget (mThread aClosure))
           (ForceCloseBackgroundActorsRunnable (mLiveActors aClosure)) s1)"

text \<open>\<open>ParentImpl::ActorDestroy\<close> (lines 1315-1344), called by the channel layer on thread
  \<open>t\<close>. \<open>BackgroundParentImpl::ActorDestroy\<close> is the base class's and goes to the trace.
  \<open>RemoveElement\<close> removes the first occurrence.\<close>

definition ParentImpl_ActorDestroy :: "thread \<Rightarrow> actor \<Rightarrow> state \<Rightarrow> state" where
  "ParentImpl_ActorDestroy t this s =
     (let s1 = emit (BaseActorDestroy this) s;
          s2 = update_parent this (\<lambda>p. p\<lparr>mActorDestroyed := True\<rparr>) s1;
          s3 = (case Option.bind (parents s2 this) mLiveActorArray of
                  Some la \<Rightarrow>
                    update_parent this (\<lambda>p. p\<lparr>mLiveActorArray := None\<rparr>)
                      (s2\<lparr>arrays := (arrays s2)(la := remove1 this (arrays s2 la))\<rparr>)
                | None \<Rightarrow> s2)
      in Dispatch (EventTarget t) (DestroyRunnable this) s3)"

text \<open>The debug-build assertions at the head of \<open>ParentImpl::ActorDestroy\<close>
  (lines 1320-1321): a debug build aborts where they fail.\<close>

definition ParentImpl_ActorDestroy_asserts :: "actor \<Rightarrow> state \<Rightarrow> bool" where
  "ParentImpl_ActorDestroy_asserts this s =
     (case parents s this of
        None \<Rightarrow> False
      | Some p \<Rightarrow> \<not> mActorDestroyed p \<and> (\<not> mIsOtherProcessActor p \<or> mLiveActorArray p \<noteq> None))"

text \<open>Modelled from the spec: \<open>PBackgroundParent::Close()\<close>, generated by IPDL and not in
  the file. Section 6 of the spec gives the channel collaborator \<open>Close()\<close> and the
  \<open>ActorDestroy(reason)\<close> callback it invokes on teardown: closing an actor whose channel
  is open and that was not destroyed yet calls its \<open>ActorDestroy\<close> on the closing thread.\<close>

definition PBackgroundParent_Close :: "thread \<Rightarrow> actor \<Rightarrow> state \<Rightarrow> state" where
  "PBackgroundParent_Close t a s =
     (let s1 = emit (ParentClose a) s
      in case parents s1 a of
           None \<Rightarrow> s1
         | Some p \<Rightarrow>
             if mChannelOpened p \<and> \<not> mActorDestroyed p then ParentImpl_ActorDestroy t a s1
             else s1)"

text \<open>\<open>ChildImpl::ParentCreateCallback::Success\<close> (lines 1953-1977), the body behind
  \<open>callback->Success(actor, loop)\<close>. When the dispatch fails the runnable is destroyed
  and with it the references to both actors.\<close>

fun CreateCallback_Success ::
  "env \<Rightarrow> CreateCallback \<Rightarrow> actor \<Rightarrow> loop option \<Rightarrow> state \<Rightarrow> state" where
  "CreateCallback_Success e (ParentCreateCallback addr tgt) aParentActor aParentMessageLoop s =
     (let s0 = emit (CallbackSuccess (ParentCreateCallback addr tgt) aParentActor
                       aParentMessageLoop) s;
          childActor = nextAddr s0;
          s1 = s0\<lparr>nextAddr := Suc childActor,
                  children := (children s0)(childActor \<mapsto> ChildImpl_new)\<rparr>
      in if e_DispatchOpen e
         then Dispatch (EventTarget tgt)
                (OpenMainProcessActorRunnable childActor aParentActor aParentMessageLoop) s1
         else s1\<lparr>children := (children s1)(childActor := None),
                 parents := (parents s1)(aParentActor := None)\<rparr>)"

text \<open>\<open>ParentImpl::CreateCallbackRunnable::Run\<close> (lines 1488-1504).\<close>

definition CreateCallbackRunnable_Run :: "env \<Rightarrow> CreateCallback \<Rightarrow> state \<Rightarrow> state" where
  "CreateCallbackRunnable_Run e mCallback s =
     (let actor = nextAddr s;
          s1 = s\<lparr>nextAddr := Suc actor, parents := (parents s)(actor \<mapsto> ParentImpl_new)\<rparr>
      in CreateCallback_Success e mCallback actor (sBackgroundThreadMessageLoop s1) s1)"

text \<open>\<open>ParentImpl::RequestMessageLoopRunnable::Run\<close> (lines 1372-1435) on thread \<open>t\<close>:
  the leg on the new thread, then the leg on the main thread.\<close>

fun dispatch_callbacks :: "env \<Rightarrow> nat \<Rightarrow> CreateCallback list \<Rightarrow> state \<Rightarrow> state" where
  "dispatch_callbacks e index [] s = s"
| "dispatch_callbacks e index (cb # cbs) s =
     dispatch_callbacks e (Suc index) cbs
       (if e_DispatchCallback e index
        then Dispatch (EventTarget MainThread) (CreateCallbackRunnable cb) s else s)"

definition RequestMessageLoopRunnable_Run ::
  "env \<Rightarrow> thread \<Rightarrow> thread \<Rightarrow> loop option \<Rightarrow> state \<Rightarrow> state" where
  "RequestMessageLoopRunnable_Run e t mTargetThread mMessageLoop s =
     (if t = MainThread
      then
        if sBackgroundThread s = None \<or> sBackgroundThread s \<noteq> Some mTargetThread then s
        else
          let s1 = s\<lparr>sBackgroundThreadMessageLoop := mMessageLoop\<rparr>
          in case sPendingCallbacks s1 of
               None \<Rightarrow> s1
             | Some callbacks \<Rightarrow>
                 if callbacks \<noteq> []
                 then dispatch_callbacks e 0 callbacks (s1\<lparr>sPendingCallbacks := Some []\<rparr>)
                 else s1
      else
        let s1 = s\<lparr>sBackgroundPRThread := Some t\<rparr>
        in if e_DispatchToMain e
           then Dispatch (EventTarget MainThread)
                  (RequestMessageLoopRunnable mTargetThread (Some (MessageLoop_current t))) s1
           else s1)"

text \<open>\<open>ParentImpl::ShutdownBackgroundThreadRunnable::Run\<close> (lines 1440-1453).\<close>

definition ShutdownBackgroundThreadRunnable_Run :: "thread \<Rightarrow> state \<Rightarrow> state" where
  "ShutdownBackgroundThreadRunnable_Run t s =
     (if sBackgroundPRThread s = Some t then s\<lparr>sBackgroundPRThread := None\<rparr> else s)"

text \<open>\<open>ParentImpl::ForceCloseBackgroundActorsRunnable::Run\<close> (lines 1458-1484) on thread
  \<open>t\<close>: the main-thread leg first in the source, the leg on the background thread after.\<close>

definition ForceCloseBackgroundActorsRunnable_Run ::
  "thread \<Rightarrow> arr option \<Rightarrow> state \<Rightarrow> error + state" where
  "ForceCloseBackgroundActorsRunnable_Run t mActorArray s =
     (if t = MainThread then Inr (s\<lparr>sLiveActorCount := sLiveActorCount s - 1\<rparr>)
      else
        case mActorArray of
          None \<Rightarrow> Inl NullDereference
        | Some la \<Rightarrow>
            let actorsToClose = arrays s la;
                s1 = (if actorsToClose \<noteq> [] then fold (PBackgroundParent_Close t) actorsToClose s
                      else s)
            in Inr (Dispatch (EventTarget MainThread)
                      (ForceCloseBackgroundActorsRunnable mActorArray) s1))"

text \<open>\<open>ParentImpl::ConnectActorRunnable::Run\<close> (lines 1508-1528) with
  \<open>SetLiveActorArray\<close> (lines 276-288). A successful \<open>Open\<close> of the channel layer leaves
  the channel open and bound to the peer's process handle.\<close>

definition ConnectActorRunnable_Run ::
  "env \<Rightarrow> actor \<Rightarrow> transport \<Rightarrow> handle \<Rightarrow> arr option \<Rightarrow> state \<Rightarrow> error + state" where
  "ConnectActorRunnable_Run e actor mTransport' mProcessHandle mLiveActorArray' s =
     (if \<not> e_Open e then Inr (Destroy actor s)
      else
        let s1 = update_parent actor
                   (\<lambda>p. p\<lparr>mChannelOpened := True, mOtherProcess := Some mProcessHandle\<rparr>) s
        in case mLiveActorArray' of
             None \<Rightarrow> Inl NullDereference
           | Some la \<Rightarrow>
               Inr ((update_parent actor (\<lambda>p. p\<lparr>mLiveActorArray := Some la\<rparr>) s1)
                      \<lparr>arrays := (arrays s1)(la := arrays s1 la @ [actor])\<rparr>))"

section \<open>ChildImpl\<close>

text \<open>\<open>mBoundThread\<close> and \<open>mActorDestroyed\<close> of \<open>ChildImpl\<close> are \<open>DebugOnly\<close>; they are kept
  as the debug build sets them and never decide a branch. \<open>ChildImpl::ActorDestroy\<close>
  (lines 2047-2056) and its assertion.\<close>

definition ChildImpl_ActorDestroy :: "child \<Rightarrow> state \<Rightarrow> state" where
  "ChildImpl_ActorDestroy this s =
     emit (BaseChildActorDestroy this)
       (update_child this (\<lambda>c. c\<lparr>mActorDestroyedChild := True\<rparr>) s)"

definition ChildImpl_ActorDestroy_asserts :: "child \<Rightarrow> state \<Rightarrow> bool" where
  "ChildImpl_ActorDestroy_asserts this s =
     (case children s this of None \<Rightarrow> False | Some c \<Rightarrow> \<not> mActorDestroyedChild c)"

text \<open>Modelled from the spec: \<open>PBackgroundChild::Close()\<close>, generated by IPDL and not in
  the file; as on the parent side, closing an actor that was not destroyed yet calls its
  \<open>ActorDestroy\<close>.\<close>

definition PBackgroundChild_Close :: "child \<Rightarrow> state \<Rightarrow> state" where
  "PBackgroundChild_Close c s =
     (let s1 = emit (ChildClose c) s
      in case children s1 c of
           None \<Rightarrow> s1
         | Some ch \<Rightarrow> if \<not> mActorDestroyedChild ch then ChildImpl_ActorDestroy c s1 else s1)"

text \<open>\<open>ChildImpl::ThreadLocalDestructor\<close> (lines 418-441) on thread \<open>t\<close>, and
  \<open>PR_SetThreadPrivate(sThreadLocalIndex, nullptr)\<close>, which runs it on the old value.\<close>

definition ThreadLocalDestructor :: "thread \<Rightarrow> ThreadLocalInfo option \<Rightarrow> state \<Rightarrow> state" where
  "ThreadLocalDestructor t aThreadLocal s =
     (case aThreadLocal of
        None \<Rightarrow> s
      | Some threadLocalInfo \<Rightarrow>
          (case mActor threadLocalInfo of
             None \<Rightarrow> s
           | Some c \<Rightarrow>
               let s1 = PBackgroundChild_Close c s
               in if t \<noteq> MainThread
                  then Dispatch (EventTarget MainThread) (ReleaseRunnable c) s1
                  else s1\<lparr>children := (children s1)(c := None)\<rparr>))"

definition SetThreadPrivate_null :: "thread \<Rightarrow> state \<Rightarrow> state" where
  "SetThreadPrivate_null t s =
     (let s1 = ThreadLocalDestructor t (threadLocal s t) s
      in s1\<lparr>threadLocal := (threadLocal s1)(t := None)\<rparr>)"

text \<open>\<open>ChildImpl::Shutdown\<close> (lines 1562-1580), on the main thread.\<close>

definition ChildImpl_Shutdown :: "state \<Rightarrow> state" where
  "ChildImpl_Shutdown s =
     (if sShutdownHasStartedChild s then s
      else SetThreadPrivate_null MainThread (s\<lparr>sShutdownHasStartedChild := True\<rparr>))"

text \<open>\<open>ParentImpl::ShutdownObserver::Observe\<close> (lines 1348-1367).\<close>

definition ShutdownObserver_Observe :: "env \<Rightarrow> state \<Rightarrow> error + state" where
  "ShutdownObserver_Observe e s =
     ShutdownBackgroundThread e (ChildImpl_Shutdown (s\<lparr>sShutdownHasStarted := True\<rparr>))"

text \<open>\<open>ChildImpl::GetForCurrentThread\<close> (lines 1618-1632) and
  \<open>ChildImpl::GetNextCallback\<close> (lines 1744-1764) on thread \<open>t\<close>.\<close>

definition GetForCurrentThread :: "thread \<Rightarrow> state \<Rightarrow> child option" where
  "GetForCurrentThread t s =
     (case threadLocal s t of None \<Rightarrow> None | Some threadLocalInfo \<Rightarrow> mActor threadLocalInfo)"

definition GetNextCallback :: "thread \<Rightarrow> state \<Rightarrow> error + (callback option \<times> state)" where
  "GetNextCallback t s =
     (case threadLocal s t of
        None \<Rightarrow> Inl NullDereference
      | Some threadLocalInfo \<Rightarrow>
          (case mCallbacks threadLocalInfo of
             [] \<Rightarrow> Inr (None, s)
           | cb # rest \<Rightarrow>
               Inr (Some cb,
                    s\<lparr>threadLocal := (threadLocal s)(t \<mapsto> threadLocalInfo\<lparr>mCallbacks := rest\<rparr>)\<rparr>)))"

text \<open>The loop \<open>while (callback) { notify; callback = GetNextCallback(); }\<close> that ends
  every completion runnable. The notified callback is an external object: its call goes to
  the trace.\<close>

function drain ::
  "(callback \<Rightarrow> event) \<Rightarrow> thread \<Rightarrow> callback option \<Rightarrow> state \<Rightarrow> error + state" where
  "drain notify t None s = Inr s"
| "drain notify t (Some cb) s =
     (case GetNextCallback t (emit (notify cb) s) of
        Inl err \<Rightarrow> Inl err
      | Inr (nxt, s') \<Rightarrow> drain notify t nxt s')"
  by pat_completeness auto
termination
  apply (relation "measure (\<lambda>(notify, t, cb, s).
           case cb of None \<Rightarrow> 0
           | Some _ \<Rightarrow> Suc (case threadLocal s t of None \<Rightarrow> 0
                            | Some info \<Rightarrow> length (mCallbacks info)))")
   apply (auto simp: GetNextCallback_def emit_def split: option.splits list.splits)
  done

text \<open>\<open>ChildImpl::OpenProtocolOnMainThread\<close> (lines 1992-2033).\<close>

definition OpenProtocolOnMainThread :: "env \<Rightarrow> thread \<Rightarrow> state \<Rightarrow> error + (bool \<times> state)" where
  "OpenProtocolOnMainThread e aEventTarget s =
     (if sShutdownHasStartedChild s then Inl MozCrash
      else if isMainProcess s
      then
        let parentCallback = ParentCreateCallback (nextAddr s) aEventTarget;
            (ok, s1) = CreateActorForSameProcess e parentCallback
                         (s\<lparr>nextAddr := Suc (nextAddr s)\<rparr>)
        in if \<not> ok then Inr (False, DispatchFailureCallback e aEventTarget s1)
           else Inr (True, s1)
      else if \<not> e_PBackgroundOpen e then Inl MozCrash
      else
        let s1 = (if sPendingTargets s = None then s\<lparr>sPendingTargets := Some []\<rparr> else s)
        in Inr (True, s1\<lparr>sPendingTargets :=
                          map_option (\<lambda>ts. ts @ [aEventTarget]) (sPendingTargets s1)\<rparr>))"

text \<open>\<open>ChildImpl::GetOrCreateForCurrentThread\<close> (lines 1634-1693) on thread \<open>t\<close>.
  \<open>CRASH_IN_CHILD_PROCESS\<close> (lines 44-52) crashes in a child process and is an assertion
  in the main process.\<close>

definition GetOrCreateForCurrentThread ::
  "env \<Rightarrow> thread \<Rightarrow> callback \<Rightarrow> state \<Rightarrow> error + (bool \<times> state)" where
  "GetOrCreateForCurrentThread e t aCallback s =
     (case threadLocal s t of
        None \<Rightarrow>
          if \<not> e_SetThreadPrivate e
          then (if isMainProcess s then Inr (False, s) else Inl MozCrash)
          else
            let s1 = s\<lparr>threadLocal := (threadLocal s)
                        (t \<mapsto> \<lparr>mActor = None, mCallbacks = [aCallback],
                               mConsumerThreadLocal = False\<rparr>)\<rparr>
            in if t = MainThread then OpenProtocolOnMainThread e t s1
               else if \<not> e_DispatchCreateActor e
               then (if isMainProcess s1 then Inr (False, s1) else Inl MozCrash)
               else Inr (True, Dispatch (EventTarget MainThread) (CreateActorRunnable t) s1)
      | Some threadLocalInfo \<Rightarrow>
          let s1 = s\<lparr>threadLocal := (threadLocal s)
                      (t \<mapsto> threadLocalInfo\<lparr>mCallbacks := mCallbacks threadLocalInfo @ [aCallback]\<rparr>)\<rparr>
          in if mActor threadLocalInfo \<noteq> None
             then Inr (True, Dispatch (EventTarget t) AlreadyCreatedCallbackRunnable s1)
             else Inr (True, s1))"

text \<open>\<open>ChildImpl::CloseForCurrentThread\<close> (lines 1695-1720) on thread \<open>t\<close>.\<close>

definition CloseForCurrentThread :: "thread \<Rightarrow> state \<Rightarrow> error + state" where
  "CloseForCurrentThread t s =
     (case threadLocal s t of
        None \<Rightarrow> Inl MozCrash
      | Some threadLocalInfo \<Rightarrow>
          let s1 = (case mActor threadLocalInfo of
                      Some c \<Rightarrow> emit (FlushPendingInterruptQueue c) s
                    | None \<Rightarrow> s)
          in Inr (SetThreadPrivate_null t s1))"

text \<open>\<open>ChildImpl::Alloc\<close> (lines 1582-1616), in a child process on the main thread.
  Reading element 0 of a null or empty \<open>sPendingTargets\<close> is the error branch.\<close>

definition ChildImpl_Alloc :: "env \<Rightarrow> transport \<Rightarrow> state \<Rightarrow> error + (child option \<times> state)" where
  "ChildImpl_Alloc e aTransport s =
     (case sPendingTargets s of
        None \<Rightarrow> Inl NullDereference
      | Some [] \<Rightarrow> Inl NullDereference
      | Some (eventTarget # rest) \<Rightarrow>
          (case e_OpenProcessHandle e of
             None \<Rightarrow> Inl MozCrash
           | Some processHandle \<Rightarrow>
               let actor = nextAddr s;
                   s1 = s\<lparr>sPendingTargets := Some rest, nextAddr := Suc actor,
                          children := (children s)(actor \<mapsto> ChildImpl_new)\<rparr>
               in if \<not> e_DispatchOpen e then Inl MozCrash
                  else Inr (Some actor,
                            Dispatch (EventTarget eventTarget)
                              (OpenChildProcessActorRunnable actor aTransport processHandle) s1)))"

text \<open>The completion runnables, on thread \<open>t\<close>:
  \<open>AlreadyCreatedCallbackRunnable::Run\<close> (lines 1769-1794),
  \<open>FailedCreateCallbackRunnable::Run\<close> (lines 1807-1820),
  \<open>OpenChildProcessActorRunnable::Run\<close> (lines 1825-1873),
  \<open>OpenMainProcessActorRunnable::Run\<close> (lines 1878-1936) and
  \<open>CreateActorRunnable::Run\<close> (lines 1940-1951). Where \<open>Open\<close> fails in
  \<open>OpenMainProcessActorRunnable::Run\<close>, the locals \<open>strongChildActor\<close> and \<open>parentActor\<close>
  hold the only references to the two actors (only the other branch has
  \<open>parentActor.forget()\<close>, line 1917), so both objects are deleted on return, after
  \<open>parentActor->Destroy()\<close> has queued its task for the main thread.\<close>

definition AlreadyCreatedCallbackRunnable_Run :: "thread \<Rightarrow> state \<Rightarrow> error + state" where
  "AlreadyCreatedCallbackRunnable_Run t s =
     (case GetForCurrentThread t s of
        None \<Rightarrow> Inr s
      | Some actor \<Rightarrow>
          and_then (GetNextCallback t s)
            (\<lambda>(callback, s1). drain (\<lambda>cb. ActorCreated cb actor) t callback s1))"

definition FailedCreateCallbackRunnable_Run :: "thread \<Rightarrow> state \<Rightarrow> error + state" where
  "FailedCreateCallbackRunnable_Run t s =
     and_then (GetNextCallback t s) (\<lambda>(callback, s1). drain ActorFailed t callback s1)"

definition SetBoundThread :: "thread \<Rightarrow> child \<Rightarrow> state \<Rightarrow> state" where
  "SetBoundThread t c s = update_child c (\<lambda>ch. ch\<lparr>mBoundThread := Some t\<rparr>) s"

definition OpenChildProcessActorRunnable_Run ::
  "env \<Rightarrow> thread \<Rightarrow> child \<Rightarrow> state \<Rightarrow> error + state" where
  "OpenChildProcessActorRunnable_Run e t mActor' s =
     and_then (GetNextCallback t s)
       (\<lambda>(callback, s1).
          if \<not> e_Open e
          then (if isMainProcess s1 then drain ActorFailed t callback s1 else Inl MozCrash)
          else
            case threadLocal s1 t of
              None \<Rightarrow> Inl NullDereference
            | Some threadLocalInfo \<Rightarrow>
                let s2 = s1\<lparr>threadLocal := (threadLocal s1)
                            (t \<mapsto> threadLocalInfo\<lparr>mActor := Some mActor'\<rparr>)\<rparr>;
                    s3 = SetBoundThread t mActor' s2
                in drain (\<lambda>cb. ActorCreated cb mActor') t callback s3)"

definition OpenMainProcessActorRunnable_Run ::
  "env \<Rightarrow> thread \<Rightarrow> child \<Rightarrow> actor \<Rightarrow> state \<Rightarrow> error + state" where
  "OpenMainProcessActorRunnable_Run e t mActor' mParentActor s =
     and_then (GetNextCallback t s)
       (\<lambda>(callback, s1).
          if \<not> e_Open e
          then and_then (drain ActorFailed t callback (Destroy mParentActor s1))
                 (\<lambda>s2. Inr (s2\<lparr>children := (children s2)(mActor' := None),
                              parents := (parents s2)(mParentActor := None)\<rparr>))
          else
            let s2 = update_parent mParentActor (\<lambda>p. p\<lparr>mChannelOpened := True\<rparr>) s1
            in case threadLocal s2 t of
                 None \<Rightarrow> Inl NullDereference
               | Some threadLocalInfo \<Rightarrow>
                   let s3 = s2\<lparr>threadLocal := (threadLocal s2)
                               (t \<mapsto> threadLocalInfo\<lparr>mActor := Some mActor'\<rparr>)\<rparr>;
                       s4 = SetBoundThread t mActor' s3
                   in drain (\<lambda>cb. ActorCreated cb mActor') t callback s4)"

definition CreateActorRunnable_Run :: "env \<Rightarrow> thread \<Rightarrow> state \<Rightarrow> error + state" where
  "CreateActorRunnable_Run e mEventTarget' s =
     and_then (OpenProtocolOnMainThread e mEventTarget' s) (\<lambda>(ok, s1). Inr s1)"

section \<open>Threads and their event queues\<close>

text \<open>The first task queued for a target, and the queue without it.\<close>

fun take_task :: "target \<Rightarrow> (target \<times> runnable) list \<Rightarrow> (runnable \<times> (target \<times> runnable) list) option" where
  "take_task tg [] = None"
| "take_task tg ((tg', r) # ts) =
     (if tg' = tg then Some (r, ts)
      else map_option (\<lambda>(r', ts'). (r', (tg', r) # ts')) (take_task tg ts))"

text \<open>\<open>Run()\<close> of a runnable on the thread that took it from its queue. The IO message
  loop runs a \<open>DeleteTask\<close> by deleting its transport. The tasks for \<open>Destroy\<close> and
  \<open>MainThreadActorDestroy\<close> are made by \<open>NS_NewNonOwningRunnableMethod\<close> (lines 1340 and
  1237) and carry a bare pointer to their actor: run after the actor was deleted, they use
  freed memory, which is the error \<open>UseAfterFree\<close>.\<close>

fun run_task :: "env \<Rightarrow> thread \<Rightarrow> runnable \<Rightarrow> state \<Rightarrow> error + state" where
  "run_task e t (RequestMessageLoopRunnable tgt lp) s =
     Inr (RequestMessageLoopRunnable_Run e t tgt lp s)"
| "run_task e t ShutdownBackgroundThreadRunnable s =
     Inr (ShutdownBackgroundThreadRunnable_Run t s)"
| "run_task e t (ForceCloseBackgroundActorsRunnable la) s =
     ForceCloseBackgroundActorsRunnable_Run t la s"
| "run_task e t (CreateCallbackRunnable cb) s = Inr (CreateCallbackRunnable_Run e cb s)"
| "run_task e t (ConnectActorRunnable a tr h la) s = ConnectActorRunnable_Run e a tr h la s"
| "run_task e t (DestroyRunnable a) s =
     (if parents s a = None then Inl UseAfterFree else Inr (Destroy a s))"
| "run_task e t (MainThreadActorDestroyRunnable a) s =
     (if parents s a = None then Inl UseAfterFree else MainThreadActorDestroy e a s)"
| "run_task e t (DeleteTask tr) s = Inr (emit (TransportDeleted tr) s)"
| "run_task e t (CreateActorRunnable tgt) s = CreateActorRunnable_Run e tgt s"
| "run_task e t AlreadyCreatedCallbackRunnable s = AlreadyCreatedCallbackRunnable_Run t s"
| "run_task e t FailedCreateCallbackRunnable s = FailedCreateCallbackRunnable_Run t s"
| "run_task e t (OpenChildProcessActorRunnable c tr h) s =
     OpenChildProcessActorRunnable_Run e t c s"
| "run_task e t (OpenMainProcessActorRunnable c a lp) s =
     OpenMainProcessActorRunnable_Run e t c a s"
| "run_task e t (ReleaseRunnable c) s = Inr (s\<lparr>children := (children s)(c := None)\<rparr>)"

text \<open>What can happen next in the process: a thread runs the next task of its queue; the
  IO loop runs its next task; IPDL calls \<open>Alloc\<close> on the main thread; a consumer thread
  calls the public API; the observer service delivers the shutdown notification to the
  registered observer, once; the armed shutdown timer fires on the main thread; the channel
  layer calls \<open>ActorDestroy\<close> on an actor whose channel was opened (nothing in the release
  build refuses a second call for the same actor).
  An action whose condition does not hold leaves the state as it is.\<close>

datatype action =
    RunTask thread
  | RunIOTask
  | CallAlloc content transport
  | CallChildAlloc transport
  | CallGetOrCreateForCurrentThread thread callback
  | CallCloseForCurrentThread thread
  | NotifyShutdown
  | NotifyChildShutdown
  | TimerFires
  | CallActorDestroy thread actor
  | CallChildActorDestroy child

fun perform :: "env \<Rightarrow> action \<Rightarrow> state \<Rightarrow> error + state" where
  "perform e (RunTask t) s =
     (case take_task (EventTarget t) (tasks s) of
        None \<Rightarrow> Inr s
      | Some (r, rest) \<Rightarrow> run_task e t r (s\<lparr>tasks := rest\<rparr>))"
| "perform e RunIOTask s =
     (case take_task IOMessageLoop (tasks s) of
        None \<Rightarrow> Inr s
      | Some (r, rest) \<Rightarrow>
          (case r of DeleteTask tr \<Rightarrow> Inr (emit (TransportDeleted tr) (s\<lparr>tasks := rest\<rparr>))
           | _ \<Rightarrow> Inr (s\<lparr>tasks := rest\<rparr>)))"
| "perform e (CallAlloc aContent aTransport) s =
     (if isMainProcess s
      then and_then (Alloc e aContent aTransport s) (\<lambda>(r, s'). Inr s')
      else Inr s)"
| "perform e (CallChildAlloc aTransport) s =
     (if \<not> isMainProcess s
      then and_then (ChildImpl_Alloc e aTransport s) (\<lambda>(r, s'). Inr s')
      else Inr s)"
| "perform e (CallGetOrCreateForCurrentThread t aCallback) s =
     and_then (GetOrCreateForCurrentThread e t aCallback s) (\<lambda>(r, s'). Inr s')"
| "perform e (CallCloseForCurrentThread t) s = CloseForCurrentThread t s"
| "perform e NotifyShutdown s =
     (if sShutdownObserverRegistered s \<and> \<not> sShutdownHasStarted s
      then ShutdownObserver_Observe e s else Inr s)"
| "perform e NotifyChildShutdown s = Inr (ChildImpl_Shutdown s)"
| "perform e TimerFires s =
     (case spin s of
        None \<Rightarrow> Inr s
      | Some f \<Rightarrow>
          if timerPending f
          then Inr (ShutdownTimerCallback (closure f) (s\<lparr>spin := Some (f\<lparr>timerPending := False\<rparr>)\<rparr>))
          else Inr s)"
| "perform e (CallActorDestroy t a) s =
     (case parents s a of
        None \<Rightarrow> Inr s
      | Some p \<Rightarrow>
          if mChannelOpened p then Inr (ParentImpl_ActorDestroy t a s)
          else Inr s)"
| "perform e (CallChildActorDestroy c) s =
     (case children s c of
        None \<Rightarrow> Inr s
      | Some ch \<Rightarrow> if \<not> mActorDestroyedChild ch then Inr (ChildImpl_ActorDestroy c s) else Inr s)"

text \<open>The actions that run on the main thread; after each of them a main thread that is
  inside the loop of \<open>ShutdownBackgroundThread\<close> tests the loop condition again.\<close>

fun on_main_thread :: "action \<Rightarrow> bool" where
  "on_main_thread (RunTask t) = (t = MainThread)"
| "on_main_thread RunIOTask = False"
| "on_main_thread (CallAlloc c tr) = True"
| "on_main_thread (CallChildAlloc tr) = True"
| "on_main_thread (CallGetOrCreateForCurrentThread t cb) = (t = MainThread)"
| "on_main_thread (CallCloseForCurrentThread t) = (t = MainThread)"
| "on_main_thread NotifyShutdown = True"
| "on_main_thread NotifyChildShutdown = True"
| "on_main_thread TimerFires = True"
| "on_main_thread (CallActorDestroy t a) = (t = MainThread)"
| "on_main_thread (CallChildActorDestroy c) = False"

definition step :: "env \<Rightarrow> action \<Rightarrow> state \<Rightarrow> error + state" where
  "step e a s =
     and_then (perform e a s) (\<lambda>s'. Inr (if on_main_thread a then spin_check s' else s'))"

fun exec :: "(env \<times> action) list \<Rightarrow> state \<Rightarrow> error + state" where
  "exec [] s = Inr s"
| "exec ((e, a) # rest) s = and_then (step e a s) (exec rest)"

text \<open>The process at start: the static members of \<open>ParentImpl\<close> and \<open>ChildImpl\<close> as
  initialised in lines 899-933, no object allocated, nothing queued.\<close>

definition init_state :: "bool \<Rightarrow> state" where
  "init_state mainProcess =
     \<lparr>isMainProcess = mainProcess, sBackgroundThread = None,
      sLiveActorsForBackgroundThread = None, sShutdownTimer = None,
      sBackgroundPRThread = None, sBackgroundThreadMessageLoop = None,
      sLiveActorCount = 0, sShutdownObserverRegistered = False,
      sShutdownHasStarted = False, sPendingCallbacks = None, sPendingTargets = None,
      sShutdownHasStartedChild = False, threadLocal = (\<lambda>t. None), parents = (\<lambda>a. None),
      children = (\<lambda>c. None), arrays = (\<lambda>a. []), tasks = [], spin = None, nextAddr = 0,
      trace = []\<rparr>"

text \<open>An environment in which every external call succeeds.\<close>

definition env_ok :: env where
  "env_ok =
     \<lparr>e_CreateTimer = True, e_GetObserverService = True, e_AddObserver = True,
      e_NewNamedThread = True, e_DispatchMessageLoop = True, e_DispatchConnect = True,
      e_DispatchCallback = (\<lambda>i. True), e_DispatchToMain = True, e_DispatchOpen = True,
      e_DispatchFailure = True, e_DispatchCreateActor = True, e_OpenProcessHandle = Some 7,
      e_Open = True, e_SetThreadPrivate = True, e_PBackgroundOpen = True\<rparr>"

section \<open>Concrete states for the examples\<close>

definition slot_without_actor :: state where
  "slot_without_actor =
     (init_state False)\<lparr>threadLocal := (\<lambda>t. None)(WorkerThread 1 \<mapsto>
        \<lparr>mActor = None, mCallbacks = [5, 6], mConsumerThreadLocal = False\<rparr>)\<rparr>"

definition slot_with_actor :: state where
  "slot_with_actor =
     (init_state False)\<lparr>threadLocal := (\<lambda>t. None)(WorkerThread 1 \<mapsto>
        \<lparr>mActor = Some 9, mCallbacks = [5, 6], mConsumerThreadLocal = False\<rparr>)\<rparr>"


section \<open>Concrete runs for the examples\<close>

text \<open>An actor for another process is allocated (timer 0, thread 1, array 2, actor 3,
  transport 9), the new thread reports its message loop and opens the actor, the channel
  layer destroys it, and the two teardown tasks run.\<close>

definition teardown_run :: "(env \<times> action) list" where
  "teardown_run =
     [(env_ok, CallAlloc 8 9),
      (env_ok, RunTask (BackgroundThread 1)),
      (env_ok, RunTask (BackgroundThread 1)),
      (env_ok, CallActorDestroy (BackgroundThread 1) 3),
      (env_ok, RunTask (BackgroundThread 1)),
      (env_ok, RunTask MainThread),
      (env_ok, RunTask MainThread)]"

section \<open>Invariants of the process\<close>

text \<open>The states the process can reach from its start, without crashing on the way.\<close>

definition reachable :: "state \<Rightarrow> bool" where
  "reachable s \<longleftrightarrow> (\<exists>mainProcess acts. exec acts (init_state mainProcess) = Inr s)"

text \<open>How often the shutdown observer was registered with the observer service.\<close>

definition observer_registrations :: "state \<Rightarrow> nat" where
  "observer_registrations s = length (filter (\<lambda>ev. ev = ObserverAdded) (trace s))"

text \<open>Once shutdown has started there is no background thread and the child side has
  started its shutdown too; the observer is registered exactly when the flag says so; the
  main thread is inside the shutdown loop only after shutdown has started.\<close>

definition shutdown_inv :: "state \<Rightarrow> bool" where
  "shutdown_inv s \<longleftrightarrow>
     (sShutdownHasStarted s \<longrightarrow> sBackgroundThread s = None \<and> sShutdownHasStartedChild s) \<and>
     observer_registrations s = (if sShutdownObserverRegistered s then 1 else 0) \<and>
     (spin s \<noteq> None \<longrightarrow> sShutdownHasStarted s)"

text \<open>The tasks that stand for one unit of the live-actor count without an actor: a
  \<open>CreateCallbackRunnable\<close> (its actor is not constructed yet) and a
  \<open>ForceCloseBackgroundActorsRunnable\<close> in flight.\<close>

fun is_hold :: "runnable \<Rightarrow> bool" where
  "is_hold (CreateCallbackRunnable cb) = True"
| "is_hold (ForceCloseBackgroundActorsRunnable la) = True"
| "is_hold r = False"

definition task_holds :: "(target \<times> runnable) list \<Rightarrow> nat" where
  "task_holds ts = length (filter (\<lambda>x. is_hold (snd x)) ts)"

definition waiters :: "state \<Rightarrow> nat" where
  "waiters s = (case sPendingCallbacks s of None \<Rightarrow> 0 | Some cbs \<Rightarrow> length cbs)"

text \<open>The bookkeeping of the live-actor count. Actors live below the next free address,
  and the count covers every actor in the store, every hold and every waiter in the pending
  queue. \<open>h\<close> accounts for a hold that was taken from its queue and is about to run.\<close>

definition count_inv_with :: "nat \<Rightarrow> state \<Rightarrow> bool" where
  "count_inv_with h s \<longleftrightarrow>
     dom (parents s) \<subseteq> {..<nextAddr s} \<and>
     int (card (dom (parents s))) + int (task_holds (tasks s)) + int h + int (waiters s)
       \<le> sLiveActorCount s"

definition count_inv :: "state \<Rightarrow> bool" where
  "count_inv s \<longleftrightarrow> count_inv_with 0 s"

text \<open>A step that leaves the bookkeeping of the parent side alone: it may queue tasks that
  are no hold, write to the trace anything but an observer registration, take addresses,
  and start the shutdown of the child side.\<close>

definition neutral :: "(target \<times> runnable) list \<Rightarrow> bool" where
  "neutral ts \<longleftrightarrow> (\<forall>x \<in> set ts. \<not> is_hold (snd x))"

definition quiet_step :: "state \<Rightarrow> state \<Rightarrow> bool" where
  "quiet_step s s' \<longleftrightarrow>
     isMainProcess s' = isMainProcess s \<and>
     sBackgroundThread s' = sBackgroundThread s \<and>
     sLiveActorsForBackgroundThread s' = sLiveActorsForBackgroundThread s \<and>
     sShutdownTimer s' = sShutdownTimer s \<and>
     sBackgroundThreadMessageLoop s' = sBackgroundThreadMessageLoop s \<and>
     sLiveActorCount s' = sLiveActorCount s \<and>
     sShutdownObserverRegistered s' = sShutdownObserverRegistered s \<and>
     sShutdownHasStarted s' = sShutdownHasStarted s \<and>
     sPendingCallbacks s' = sPendingCallbacks s \<and>
     (sShutdownHasStartedChild s \<longrightarrow> sShutdownHasStartedChild s') \<and>
     parents s' = parents s \<and>
     arrays s' = arrays s \<and>
     spin s' = spin s \<and>
     nextAddr s \<le> nextAddr s' \<and>
     (\<exists>ts. tasks s' = tasks s @ ts \<and> neutral ts) \<and>
     observer_registrations s' = observer_registrations s"

text \<open>The two halves of a quiet step: a steady step leaves the count and the set of actors
  as they are and adds neither a hold nor a waiter; a calm step leaves what the shutdown
  invariant is about as it is.\<close>

definition steady_step :: "state \<Rightarrow> state \<Rightarrow> bool" where
  "steady_step s s' \<longleftrightarrow>
     dom (parents s') = dom (parents s) \<and>
     sLiveActorCount s' = sLiveActorCount s \<and>
     nextAddr s \<le> nextAddr s' \<and>
     waiters s' \<le> waiters s \<and>
     (\<exists>ts. tasks s' = tasks s @ ts \<and> neutral ts)"

definition calm_step :: "state \<Rightarrow> state \<Rightarrow> bool" where
  "calm_step s s' \<longleftrightarrow>
     sBackgroundThread s' = sBackgroundThread s \<and>
     sShutdownHasStarted s' = sShutdownHasStarted s \<and>
     (sShutdownHasStartedChild s \<longrightarrow> sShutdownHasStartedChild s') \<and>
     sShutdownObserverRegistered s' = sShutdownObserverRegistered s \<and>
     spin s' = spin s \<and>
     observer_registrations s' = observer_registrations s"

text \<open>Addresses are not reused: an actor that was deleted stays deleted. A force-close task
  is queued only while the main thread is inside the loop of \<open>ShutdownBackgroundThread\<close>.
  A mild step keeps both: it reuses no address, does not end the loop, and queues no
  force-close task outside the loop.\<close>

definition no_reuse :: "state \<Rightarrow> state \<Rightarrow> bool" where
  "no_reuse s s' \<longleftrightarrow>
     nextAddr s \<le> nextAddr s' \<and>
     (\<forall>a<nextAddr s. parents s a = None \<longrightarrow> parents s' a = None)"

fun is_force :: "runnable \<Rightarrow> bool" where
  "is_force (ForceCloseBackgroundActorsRunnable la) = True"
| "is_force r = False"

definition force_pending :: "(target \<times> runnable) list \<Rightarrow> bool" where
  "force_pending ts \<longleftrightarrow> (\<exists>x \<in> set ts. is_force (snd x))"


definition mild_step :: "state \<Rightarrow> state \<Rightarrow> bool" where
  "mild_step s s' \<longleftrightarrow>
     no_reuse s s' \<and>
     (spin s \<noteq> None \<longrightarrow> spin s' \<noteq> None) \<and>
     (\<exists>ts. tasks s' = tasks s @ ts \<and> (force_pending ts \<longrightarrow> spin s' \<noteq> None))"

text \<open>The events a piece of code appends to the trace, between a state and a later one.\<close>

definition new_events :: "state \<Rightarrow> state \<Rightarrow> event list" where
  "new_events s s' = drop (length (trace s)) (trace s')"

section \<open>Concrete runs of a shutdown\<close>

text \<open>An actor for another process is allocated and opened (timer 0, thread 1, array 2,
  actor 3), the shutdown notification arrives while it is live, and the shutdown timer
  fires.\<close>

definition other_process_force_run :: "(env \<times> action) list" where
  "other_process_force_run =
     [(env_ok, CallAlloc 8 9),
      (env_ok, RunTask (BackgroundThread 1)),
      (env_ok, RunTask (BackgroundThread 1)),
      (env_ok, NotifyShutdown),
      (env_ok, TimerFires)]"

text \<open>A worker thread of the main process asks for its actor (callback object 0, timer 1,
  thread 2, array 3, parent actor 4, child actor 5) and gets it; the shutdown notification
  arrives while the pair is live, the shutdown timer fires, and both legs of the force-close
  task run.\<close>

definition same_process_force_run :: "(env \<times> action) list" where
  "same_process_force_run =
     [(env_ok, CallGetOrCreateForCurrentThread (WorkerThread 1) 5),
      (env_ok, RunTask MainThread),
      (env_ok, RunTask (BackgroundThread 2)),
      (env_ok, RunTask MainThread),
      (env_ok, RunTask MainThread),
      (env_ok, RunTask (WorkerThread 1)),
      (env_ok, NotifyShutdown),
      (env_ok, TimerFires),
      (env_ok, RunTask (BackgroundThread 2)),
      (env_ok, RunTask MainThread)]"



section \<open>Draining the callbacks of a thread\<close>

lemma drain_all:
  "threadLocal s t = Some info \<Longrightarrow>
   drain notify t (Some cb) s =
     Inr (s\<lparr>threadLocal := (threadLocal s)(t \<mapsto> info\<lparr>mCallbacks := []\<rparr>),
            trace := trace s @ map notify (cb # mCallbacks info)\<rparr>)"
proof (induction "mCallbacks info" arbitrary: s cb info)
  case Nil
  have "info\<lparr>mCallbacks := []\<rparr> = info" using Nil by simp
  then have "(threadLocal s)(t \<mapsto> info\<lparr>mCallbacks := []\<rparr>) = threadLocal s"
    using Nil.prems by (simp add: fun_upd_idem)
  then show ?case using Nil
    by (simp add: GetNextCallback_def emit_def)
next
  case (Cons c cs)
  let ?s' = "(emit (notify cb) s)\<lparr>threadLocal := (threadLocal s)(t \<mapsto> info\<lparr>mCallbacks := cs\<rparr>)\<rparr>"
  have g: "GetNextCallback t (emit (notify cb) s) = Inr (Some c, ?s')"
    using Cons.prems Cons.hyps(2) [symmetric] by (simp add: GetNextCallback_def emit_def)
  have tl: "threadLocal ?s' t = Some (info\<lparr>mCallbacks := cs\<rparr>)" by simp
  have "drain notify t (Some c) ?s' =
     Inr (?s'\<lparr>threadLocal := (threadLocal ?s')(t \<mapsto> (info\<lparr>mCallbacks := cs\<rparr>)\<lparr>mCallbacks := []\<rparr>),
            trace := trace ?s' @ map notify (c # mCallbacks (info\<lparr>mCallbacks := cs\<rparr>))\<rparr>)"
    by (rule Cons.hyps(1) [OF _ tl]) simp
  then show ?case
    using g Cons.hyps(2) [symmetric] by (simp add: emit_def)
qed

lemma drain_queue:
  "threadLocal s t = Some info \<Longrightarrow>
   and_then (GetNextCallback t s) (\<lambda>(callback, s1). drain notify t callback s1) =
     Inr (s\<lparr>threadLocal := (threadLocal s)(t \<mapsto> info\<lparr>mCallbacks := []\<rparr>),
            trace := trace s @ map notify (mCallbacks info)\<rparr>)"
proof (cases "mCallbacks info")
  case Nil
  assume a: "threadLocal s t = Some info"
  have "info\<lparr>mCallbacks := []\<rparr> = info" using Nil by simp
  then have "(threadLocal s)(t \<mapsto> info\<lparr>mCallbacks := []\<rparr>) = threadLocal s"
    using a by (simp add: fun_upd_idem)
  then show ?thesis using a Nil
    by (simp add: and_then_def GetNextCallback_def)
next
  case (Cons c cs)
  assume a: "threadLocal s t = Some info"
  let ?s1 = "s\<lparr>threadLocal := (threadLocal s)(t \<mapsto> info\<lparr>mCallbacks := cs\<rparr>)\<rparr>"
  have tl: "threadLocal ?s1 t = Some (info\<lparr>mCallbacks := cs\<rparr>)" by simp
  show ?thesis using a Cons drain_all [OF tl, of notify c]
    by (simp add: and_then_def GetNextCallback_def)
qed

section \<open>The Ready-state callback path\<close>

text \<open>
  C9. When \<open>AlreadyCreatedCallbackRunnable\<close> runs on a thread whose slot holds no actor
  any more (no slot, or a slot without actor), it returns without touching anything: no
  callback is notified, neither created nor failed. When the slot holds an actor, every
  queued callback is notified of that actor, in queue order, and the queue is empty
  afterwards.
\<close>

theorem AlreadyCreatedCallbackRunnable_Run_actor_gone:
  "(GetForCurrentThread t s = None \<longrightarrow> AlreadyCreatedCallbackRunnable_Run t s = Inr s) \<and>
   (threadLocal s t = Some info \<and> mActor info = Some actor \<longrightarrow>
      AlreadyCreatedCallbackRunnable_Run t s =
        Inr (s\<lparr>threadLocal := (threadLocal s)(t \<mapsto> info\<lparr>mCallbacks := []\<rparr>),
               trace := trace s @ map (\<lambda>cb. ActorCreated cb actor) (mCallbacks info)\<rparr>))"
proof (intro conjI impI)
  assume "GetForCurrentThread t s = None"
  then show "AlreadyCreatedCallbackRunnable_Run t s = Inr s"
    by (simp add: AlreadyCreatedCallbackRunnable_Run_def)
next
  assume a: "threadLocal s t = Some info \<and> mActor info = Some actor"
  then have "GetForCurrentThread t s = Some actor"
    by (simp add: GetForCurrentThread_def)
  then show "AlreadyCreatedCallbackRunnable_Run t s =
        Inr (s\<lparr>threadLocal := (threadLocal s)(t \<mapsto> info\<lparr>mCallbacks := []\<rparr>),
               trace := trace s @ map (\<lambda>cb. ActorCreated cb actor) (mCallbacks info)\<rparr>)"
    using a drain_queue [of s t info "\<lambda>cb. ActorCreated cb actor"]
    by (simp add: AlreadyCreatedCallbackRunnable_Run_def)
qed

theorem AlreadyCreatedCallbackRunnable_Run_actor_gone_witness:
  "GetForCurrentThread (WorkerThread 1) slot_without_actor = None \<and>
   trace (projr (AlreadyCreatedCallbackRunnable_Run (WorkerThread 1) slot_without_actor)) = [] \<and>
   trace (projr (AlreadyCreatedCallbackRunnable_Run (WorkerThread 1) slot_with_actor)) =
     [ActorCreated 5 9, ActorCreated 6 9]"
proof -
  have n: "GetForCurrentThread (WorkerThread 1) slot_without_actor = None"
    by (simp add: GetForCurrentThread_def slot_without_actor_def)
  have tl: "threadLocal slot_with_actor (WorkerThread 1) =
      Some \<lparr>mActor = Some 9, mCallbacks = [5, 6], mConsumerThreadLocal = False\<rparr> \<and>
      mActor \<lparr>mActor = Some 9, mCallbacks = [5, 6], mConsumerThreadLocal = False\<rparr> = Some 9"
    by (simp add: slot_with_actor_def)
  have e: "trace slot_without_actor = [] \<and> trace slot_with_actor = []"
    by (simp add: slot_without_actor_def slot_with_actor_def init_state_def)
  show ?thesis
    using n tl e
      AlreadyCreatedCallbackRunnable_Run_actor_gone
        [of "WorkerThread 1" slot_without_actor
            "\<lparr>mActor = Some 9, mCallbacks = [5, 6], mConsumerThreadLocal = False\<rparr>" 9]
      AlreadyCreatedCallbackRunnable_Run_actor_gone
        [of "WorkerThread 1" slot_with_actor
            "\<lparr>mActor = Some 9, mCallbacks = [5, 6], mConsumerThreadLocal = False\<rparr>" 9]
    by simp
qed

declare drain.simps(2) [simp del]

section \<open>Creation callbacks of a consumer thread\<close>














section \<open>Effects of the helper loops\<close>

lemma fold_Failure_effect:
  "\<exists>ts evs. fold (CreateCallback_Failure e) cbs s =
      s\<lparr>tasks := tasks s @ ts, trace := trace s @ evs\<rparr> \<and>
      (\<forall>x \<in> set ts. snd x = FailedCreateCallbackRunnable) \<and>
      (\<forall>ev \<in> set evs. \<exists>cb. ev = CallbackFailure cb)"
proof (induction cbs arbitrary: s)
  case Nil
  have "s = s\<lparr>tasks := tasks s @ [], trace := trace s @ []\<rparr>" by simp
  then show ?case by (metis empty_iff fold_simps(1) list.set(1))
next
  case (Cons cb cbs)
  obtain addr tgt where cb: "cb = ParentCreateCallback addr tgt" by (cases cb) auto
  obtain ts0 where s1: "CreateCallback_Failure e cb s =
      s\<lparr>tasks := tasks s @ ts0, trace := trace s @ [CallbackFailure cb]\<rparr>"
    and ts0: "\<forall>x \<in> set ts0. snd x = FailedCreateCallbackRunnable"
  proof (cases "e_DispatchFailure e")
    case True
    show ?thesis
      by (rule that [of "[(EventTarget tgt, FailedCreateCallbackRunnable)]"])
         (simp_all add: cb True DispatchFailureCallback_def Dispatch_def emit_def)
  next
    case False
    show ?thesis
      by (rule that [of "[]"])
         (simp_all add: cb False DispatchFailureCallback_def Dispatch_def emit_def)
  qed
  let ?s1 = "CreateCallback_Failure e cb s"
  from Cons [of ?s1] obtain ts evs where
    f: "fold (CreateCallback_Failure e) cbs ?s1 =
          ?s1\<lparr>tasks := tasks ?s1 @ ts, trace := trace ?s1 @ evs\<rparr>"
    and ts: "\<forall>x \<in> set ts. snd x = FailedCreateCallbackRunnable"
    and evs: "\<forall>ev \<in> set evs. \<exists>cb. ev = CallbackFailure cb" by blast
  have "fold (CreateCallback_Failure e) (cb # cbs) s =
      s\<lparr>tasks := tasks s @ (ts0 @ ts), trace := trace s @ (CallbackFailure cb # evs)\<rparr>"
    using f by (simp add: s1)
  moreover have "\<forall>x \<in> set (ts0 @ ts). snd x = FailedCreateCallbackRunnable"
    using ts0 ts by auto
  moreover have "\<forall>ev \<in> set (CallbackFailure cb # evs). \<exists>cb. ev = CallbackFailure cb"
    using evs by auto
  ultimately show ?case by blast
qed

lemma ShutdownBackgroundThread_effect:
  assumes "ShutdownBackgroundThread e s = Inr s'"
  shows "isMainProcess s' = isMainProcess s \<and>
         sBackgroundThread s' = None \<and>
         sBackgroundPRThread s' = sBackgroundPRThread s \<and>
         sLiveActorCount s' = sLiveActorCount s \<and>
         sShutdownObserverRegistered s' = sShutdownObserverRegistered s \<and>
         sShutdownHasStarted s' = sShutdownHasStarted s \<and>
         sPendingTargets s' = sPendingTargets s \<and>
         sShutdownHasStartedChild s' = sShutdownHasStartedChild s \<and>
         threadLocal s' = threadLocal s \<and>
         parents s' = parents s \<and>
         children s' = children s \<and>
         arrays s' = arrays s \<and>
         nextAddr s' = nextAddr s \<and>
         (sPendingCallbacks s' = None \<or> sPendingCallbacks s' = Some []) \<and>
         (\<exists>ts. tasks s' = tasks s @ ts \<and>
               (\<forall>x \<in> set ts. snd x = FailedCreateCallbackRunnable \<or>
                                snd x = ShutdownBackgroundThreadRunnable)) \<and>
         (\<exists>evs. trace s' = trace s @ evs \<and>
               (\<forall>ev \<in> set evs. (\<exists>cb. ev = CallbackFailure cb) \<or> (\<exists>tm. ev = TimerInit tm) \<or>
                                 (\<exists>th. ev = ThreadShutdown th))) \<and>
         (spin s' = spin s \<or> (sShutdownHasStarted s \<and> sLiveActorCount s \<noteq> 0 \<and> spin s' \<noteq> None))"
proof -
  define s1 where "s1 = (case sPendingCallbacks s of
                  None \<Rightarrow> s
                | Some callbacks \<Rightarrow>
                    let sa = (if callbacks \<noteq> []
                              then fold (CreateCallback_Failure e) callbacks
                                     (s\<lparr>sPendingCallbacks := Some []\<rparr>)
                              else s)
                    in if sShutdownHasStarted sa then sa\<lparr>sPendingCallbacks := None\<rparr> else sa)"
  have "\<exists>ts evs P. s1 = s\<lparr>tasks := tasks s @ ts, trace := trace s @ evs, sPendingCallbacks := P\<rparr> \<and>
          (P = None \<or> P = Some []) \<and>
          (\<forall>x \<in> set ts. snd x = FailedCreateCallbackRunnable) \<and>
          (\<forall>ev \<in> set evs. \<exists>cb. ev = CallbackFailure cb)"
  proof (cases "sPendingCallbacks s")
    case None
    have "s1 = s\<lparr>tasks := tasks s @ [], trace := trace s @ [], sPendingCallbacks := None\<rparr>"
      using None by (simp add: s1_def)
    moreover have "\<forall>x \<in> set ([]::(target \<times> runnable) list). snd x = FailedCreateCallbackRunnable"
      by simp
    moreover have "\<forall>ev \<in> set ([]::event list). \<exists>cb. ev = CallbackFailure cb" by simp
    ultimately show ?thesis by blast
  next
    case (Some cbs)
    show ?thesis
    proof (cases "cbs = []")
      case True
      have "s1 = s\<lparr>tasks := tasks s @ [], trace := trace s @ [],
                   sPendingCallbacks := (if sShutdownHasStarted s then None else Some [])\<rparr>"
        using Some True by (simp add: s1_def)
      moreover have "(if sShutdownHasStarted s then None else Some []) = None \<or>
                     (if sShutdownHasStarted s then None else Some []) = Some ([]::CreateCallback list)"
        by simp
      moreover have "\<forall>x \<in> set ([]::(target \<times> runnable) list). snd x = FailedCreateCallbackRunnable"
        by simp
      moreover have "\<forall>ev \<in> set ([]::event list). \<exists>cb. ev = CallbackFailure cb" by simp
      ultimately show ?thesis by blast
    next
      case False
      let ?s0 = "s\<lparr>sPendingCallbacks := Some []\<rparr>"
      from fold_Failure_effect [of e cbs ?s0] obtain ts evs where
        f: "fold (CreateCallback_Failure e) cbs ?s0 =
              ?s0\<lparr>tasks := tasks ?s0 @ ts, trace := trace ?s0 @ evs\<rparr>"
        and ts: "\<forall>x \<in> set ts. snd x = FailedCreateCallbackRunnable"
        and evs: "\<forall>ev \<in> set evs. \<exists>cb. ev = CallbackFailure cb" by blast
      have "s1 = s\<lparr>tasks := tasks s @ ts, trace := trace s @ evs,
                   sPendingCallbacks := (if sShutdownHasStarted s then None else Some [])\<rparr>"
        using Some False by (simp add: s1_def f)
      moreover have "(if sShutdownHasStarted s then None else Some []) = None \<or>
                     (if sShutdownHasStarted s then None else Some []) = Some ([]::CreateCallback list)"
        by simp
      ultimately show ?thesis using ts evs by blast
    qed
  qed
  then obtain ts evs P where
    s1: "s1 = s\<lparr>tasks := tasks s @ ts, trace := trace s @ evs, sPendingCallbacks := P\<rparr>"
    and P: "P = None \<or> P = Some []"
    and ts: "\<forall>x \<in> set ts. snd x = FailedCreateCallbackRunnable"
    and evs: "\<forall>ev \<in> set evs. \<exists>cb. ev = CallbackFailure cb" by blast
  have r: "ShutdownBackgroundThread e s =
     (let shutdownTimer = (if sShutdownHasStarted s1 then sShutdownTimer s1 else None);
          s2 = (if sShutdownHasStarted s1 then s1\<lparr>sShutdownTimer := None\<rparr> else s1)
      in case sBackgroundThread s2 of
           None \<Rightarrow> Inr s2
         | Some thread \<Rightarrow>
             let liveActors = sLiveActorsForBackgroundThread s2;
                 s3 = s2\<lparr>sBackgroundThread := None,
                         sLiveActorsForBackgroundThread := None,
                         sBackgroundThreadMessageLoop := None\<rparr>
             in if sShutdownHasStarted s3 \<and> sLiveActorCount s3 \<noteq> 0
                then (case shutdownTimer of
                        None \<Rightarrow> Inl NullDereference
                      | Some tm \<Rightarrow>
                          Inr ((emit (TimerInit tm) s3)
                                 \<lparr>spin := Some \<lparr>closure = \<lparr>mThread = thread,
                                                            mLiveActors = liveActors\<rparr>,
                                                 shutdownTimer = tm,
                                                 timerPending = True\<rparr>\<rparr>))
                else Inr (ShutdownBackgroundThread_finish thread s3))"
    unfolding ShutdownBackgroundThread_def s1_def Let_def by (rule refl)
  show ?thesis
    using assms P ts evs unfolding r s1
    by (auto simp: Let_def emit_def ShutdownBackgroundThread_finish_def Dispatch_def
          split: option.splits if_splits)
qed

section \<open>Release of the transport\<close>

lemma ShutdownBackgroundThread_at_zero:
  "sLiveActorCount s = 0 \<Longrightarrow> \<exists>s'. ShutdownBackgroundThread e s = Inr s'"
proof -
  assume z: "sLiveActorCount s = 0"
  have "\<And>cbs s0. sLiveActorCount (fold (CreateCallback_Failure e) cbs s0) = sLiveActorCount s0"
  proof -
    fix cbs s0
    from fold_Failure_effect [of e cbs s0] obtain ts evs where
      "fold (CreateCallback_Failure e) cbs s0 = s0\<lparr>tasks := tasks s0 @ ts, trace := trace s0 @ evs\<rparr>"
      by blast
    then show "sLiveActorCount (fold (CreateCallback_Failure e) cbs s0) = sLiveActorCount s0"
      by simp
  qed
  then show ?thesis using z
    by (auto simp: ShutdownBackgroundThread_def Let_def split: option.splits)
qed

text \<open>
  C3 (as amended). When \<open>MainThreadActorDestroy\<close> runs on an actor that owns a transport,
  it always returns, and it releases the transport by posting one \<open>DeleteTask\<close> for it to
  the IO message loop (\<open>XRE_GetIOMessageLoop()\<close>), not to the queue of the background
  thread: every other task the call queues is not a delete task. The transport is not
  deleted during the call, and the actor is gone from the store afterwards.
\<close>

theorem MainThreadActorDestroy_posts_delete_task:
  assumes "parents s this = Some p" and "mTransport p = Some tr"
  shows "\<exists>s' ts evs. MainThreadActorDestroy e this s = Inr s' \<and>
           tasks s' = tasks s @ (IOMessageLoop, DeleteTask tr) # ts \<and>
           (\<forall>x \<in> set ts. \<forall>tr'. snd x \<noteq> DeleteTask tr') \<and>
           trace s' = trace s @ evs \<and>
           (\<forall>ev \<in> set evs. \<forall>tr'. ev \<noteq> TransportDeleted tr') \<and>
           parents s' this = None"
proof -
  define s1 where "s1 = update_parent this (\<lambda>p. p\<lparr>mTransport := None\<rparr>)
                      (Dispatch IOMessageLoop (DeleteTask tr) s)"
  define s2 where "s2 = (case Option.bind (parents s1 this) mOtherProcess of
                  Some h \<Rightarrow> emit (CloseProcessHandle h) s1
                | None \<Rightarrow> s1)"
  define s4 where "s4 = (update_parent this (\<lambda>p. p\<lparr>mContent := None\<rparr>) s2)
                          \<lparr>sLiveActorCount := sLiveActorCount s2 - 1\<rparr>"
  have h: "Option.bind (parents s this) mTransport = Some tr"
    using assms by simp
  have r: "MainThreadActorDestroy e this s =
      and_then (if sLiveActorCount s4 = 0 then ShutdownBackgroundThread e s4 else Inr s4)
           (\<lambda>s5. Inr (s5\<lparr>parents := (parents s5)(this := None)\<rparr>))"
    unfolding MainThreadActorDestroy_def s4_def s2_def s1_def Let_def h option.case
    by (simp add: update_parent_def)
  have t4: "tasks s4 = tasks s @ [(IOMessageLoop, DeleteTask tr)]"
    by (simp add: s4_def s2_def s1_def update_parent_def Dispatch_def emit_def
          split: option.splits)
  have "\<exists>evs0. trace s4 = trace s @ evs0 \<and> (\<forall>ev \<in> set evs0. \<forall>tr'. ev \<noteq> TransportDeleted tr')"
    by (cases "Option.bind (parents s1 this) mOtherProcess")
       (simp_all add: s4_def s2_def s1_def update_parent_def Dispatch_def emit_def)
  then obtain evs0 where e4: "trace s4 = trace s @ evs0"
    and evs0: "\<forall>ev \<in> set evs0. \<forall>tr'. ev \<noteq> TransportDeleted tr'" by blast
  show ?thesis
  proof (cases "sLiveActorCount s4 = 0")
    case False
    have "MainThreadActorDestroy e this s = Inr (s4\<lparr>parents := (parents s4)(this := None)\<rparr>)"
      using False by (simp add: r and_then_def)
    moreover have "\<forall>x \<in> set ([]::(target \<times> runnable) list). \<forall>tr'. snd x \<noteq> DeleteTask tr'"
      by simp
    ultimately show ?thesis using t4 e4 evs0
      by (intro exI [of _ "s4\<lparr>parents := (parents s4)(this := None)\<rparr>"] exI [of _ "[]"]
            exI [of _ evs0]) simp
  next
    case True
    from ShutdownBackgroundThread_at_zero [OF True, of e] obtain s5 where
      s5: "ShutdownBackgroundThread e s4 = Inr s5" by blast
    from ShutdownBackgroundThread_effect [OF s5] obtain ts evs where
      ts: "tasks s5 = tasks s4 @ ts"
        "\<forall>x \<in> set ts. snd x = FailedCreateCallbackRunnable \<or> snd x = ShutdownBackgroundThreadRunnable"
      and evs: "trace s5 = trace s4 @ evs"
        "\<forall>ev \<in> set evs. (\<exists>cb. ev = CallbackFailure cb) \<or> (\<exists>tm. ev = TimerInit tm) \<or>
                                 (\<exists>th. ev = ThreadShutdown th)"
      by blast
    have m: "MainThreadActorDestroy e this s = Inr (s5\<lparr>parents := (parents s5)(this := None)\<rparr>)"
      using True s5 by (simp add: r and_then_def)
    have a: "\<forall>x \<in> set ts. \<forall>tr'. snd x \<noteq> DeleteTask tr'" using ts(2) by auto
    have b: "\<forall>ev \<in> set (evs0 @ evs). \<forall>tr'. ev \<noteq> TransportDeleted tr'"
      using evs0 evs(2) by auto
    show ?thesis using m t4 e4 ts(1) evs(1) a b
      by (intro exI [of _ "s5\<lparr>parents := (parents s5)(this := None)\<rparr>"] exI [of _ ts]
            exI [of _ "evs0 @ evs"]) simp
  qed
qed

theorem MainThreadActorDestroy_posts_delete_task_witness:
  "\<exists>s' ts. MainThreadActorDestroy env_ok 3
          ((init_state True)\<lparr>sLiveActorCount := 2,
              parents := (\<lambda>a. None)(3 \<mapsto> ParentImpl_new_other 8 9)\<rparr>) = Inr s' \<and>
        tasks s' = (IOMessageLoop, DeleteTask 9) # ts \<and> parents s' 3 = None"
proof -
  let ?s = "(init_state True)\<lparr>sLiveActorCount := 2,
              parents := (\<lambda>a. None)(3 \<mapsto> ParentImpl_new_other 8 9)\<rparr>"
  have p: "parents ?s 3 = Some (ParentImpl_new_other 8 9)" by simp
  have m: "mTransport (ParentImpl_new_other 8 9) = Some 9"
    by (simp add: ParentImpl_new_other_def)
  have e: "tasks ?s = []" by (simp add: init_state_def)
  from MainThreadActorDestroy_posts_delete_task [OF p m, of env_ok]
  obtain s' ts where
    "MainThreadActorDestroy env_ok 3 ?s = Inr s'"
    and "tasks s' = tasks ?s @ (IOMessageLoop, DeleteTask 9) # ts"
    and "parents s' 3 = None" by blast
  then show ?thesis unfolding e by auto
qed

text \<open>The claim as stated fails on \<open>teardown_run\<close>: before its last step the background
  thread is thread 1 and only the teardown task is queued; after it the delete task for
  transport 9 is queued for the IO message loop, and the queue of the background thread
  holds nothing but the task that ends the thread.\<close>

theorem MainThreadActorDestroy_transport_counterexample:
  "map_sum id (\<lambda>s. (sBackgroundThread s, tasks s)) (exec (butlast teardown_run) (init_state True)) =
     Inr (Some (BackgroundThread 1), [(EventTarget MainThread, MainThreadActorDestroyRunnable 3)]) \<and>
   map_sum id tasks (exec teardown_run (init_state True)) =
     Inr [(IOMessageLoop, DeleteTask 9),
          (EventTarget (BackgroundThread 1), ShutdownBackgroundThreadRunnable)]"
  by code_simp

section \<open>Calling ActorDestroy twice\<close>

text \<open>
  C2 (as amended). \<open>ActorDestroy\<close> has no early return for an actor that was destroyed
  already; it asserts that it has not run before. After a first call the assertions of a
  second call fail, on the parent side and on the child side, so a debug build aborts. With
  the assertions compiled out, a second call on a parent actor leaves the actor, the
  live-actor arrays and the live-actor count as they are (the actor was unregistered by
  the first call), but it calls the base class again and posts a second \<open>Destroy\<close> task
  to the calling thread; a second call on a child actor calls the base class again.
\<close>

theorem ActorDestroy_second_call:
  assumes "parents s this = Some p" and "children s c = Some ch"
  shows "(let s1 = ParentImpl_ActorDestroy t this s;
              s2 = ParentImpl_ActorDestroy t this s1;
              c1 = ChildImpl_ActorDestroy c s
          in \<not> ParentImpl_ActorDestroy_asserts this s1 \<and>
             parents s2 = parents s1 \<and> arrays s2 = arrays s1 \<and>
             sLiveActorCount s2 = sLiveActorCount s1 \<and>
             tasks s2 = tasks s1 @ [(EventTarget t, DestroyRunnable this)] \<and>
             trace s2 = trace s1 @ [BaseActorDestroy this] \<and>
             \<not> ChildImpl_ActorDestroy_asserts c c1 \<and>
             trace (ChildImpl_ActorDestroy c c1) = trace c1 @ [BaseChildActorDestroy c])"
proof -
  define s1 where "s1 = ParentImpl_ActorDestroy t this s"
  define s2 where "s2 = ParentImpl_ActorDestroy t this s1"
  define c1 where "c1 = ChildImpl_ActorDestroy c s"
  obtain p1 where p1: "parents s1 this = Some p1" "mActorDestroyed p1" "mLiveActorArray p1 = None"
    using assms(1)
    by (cases "mLiveActorArray p")
       (simp_all add: s1_def ParentImpl_ActorDestroy_def Let_def update_parent_def emit_def
          Dispatch_def)
  have idem: "(parents s1)(this \<mapsto> p1\<lparr>mActorDestroyed := True\<rparr>) = parents s1"
    using p1 by (simp add: fun_upd_idem)
  have a: "\<not> ParentImpl_ActorDestroy_asserts this s1"
    using p1 by (simp add: ParentImpl_ActorDestroy_asserts_def)
  have s2: "s2 = s1\<lparr>tasks := tasks s1 @ [(EventTarget t, DestroyRunnable this)],
                    trace := trace s1 @ [BaseActorDestroy this]\<rparr>"
    using p1 idem
    by (simp add: s2_def ParentImpl_ActorDestroy_def Let_def update_parent_def emit_def
          Dispatch_def)
  have b: "\<not> ChildImpl_ActorDestroy_asserts c c1"
    using assms(2)
    by (simp add: c1_def ChildImpl_ActorDestroy_asserts_def ChildImpl_ActorDestroy_def
          update_child_def emit_def)
  have d: "trace (ChildImpl_ActorDestroy c c1) = trace c1 @ [BaseChildActorDestroy c]"
    by (simp add: ChildImpl_ActorDestroy_def update_child_def emit_def)
  have "\<not> ParentImpl_ActorDestroy_asserts this s1 \<and>
             parents s2 = parents s1 \<and> arrays s2 = arrays s1 \<and>
             sLiveActorCount s2 = sLiveActorCount s1 \<and>
             tasks s2 = tasks s1 @ [(EventTarget t, DestroyRunnable this)] \<and>
             trace s2 = trace s1 @ [BaseActorDestroy this] \<and>
             \<not> ChildImpl_ActorDestroy_asserts c c1 \<and>
             trace (ChildImpl_ActorDestroy c c1) = trace c1 @ [BaseChildActorDestroy c]"
    using a b d by (simp add: s2)
  then show ?thesis unfolding Let_def s1_def s2_def c1_def .
qed

theorem ActorDestroy_second_call_witness:
  "\<not> ParentImpl_ActorDestroy_asserts 3
       (ParentImpl_ActorDestroy (BackgroundThread 1) 3
          ((init_state True)\<lparr>parents := (\<lambda>a. None)(3 \<mapsto> ParentImpl_new),
                              children := (\<lambda>a. None)(4 \<mapsto> ChildImpl_new)\<rparr>)) \<and>
   \<not> ChildImpl_ActorDestroy_asserts 4
       (ChildImpl_ActorDestroy 4
          ((init_state True)\<lparr>parents := (\<lambda>a. None)(3 \<mapsto> ParentImpl_new),
                              children := (\<lambda>a. None)(4 \<mapsto> ChildImpl_new)\<rparr>))"
proof -
  let ?s = "(init_state True)\<lparr>parents := (\<lambda>a. None)(3 \<mapsto> ParentImpl_new),
                              children := (\<lambda>a. None)(4 \<mapsto> ChildImpl_new)\<rparr>"
  have p: "parents ?s 3 = Some ParentImpl_new" by simp
  have c: "children ?s 4 = Some ChildImpl_new" by simp
  show ?thesis
    using ActorDestroy_second_call [OF p c, of "BackgroundThread 1"] by (simp add: Let_def)
qed

text \<open>The claim as stated fails after the first four steps of \<open>teardown_run\<close>, where
  actor 3 was destroyed once: a second \<open>ActorDestroy\<close> on it queues a second
  \<open>Destroy\<close> task for the background thread, and its debug assertions do not hold.\<close>

theorem ActorDestroy_twice_counterexample:
  "map_sum id tasks (exec (take 4 teardown_run) (init_state True)) =
     Inr [(EventTarget MainThread,
           RequestMessageLoopRunnable (BackgroundThread 1)
             (Some (MessageLoopOf (BackgroundThread 1)))),
          (EventTarget (BackgroundThread 1), DestroyRunnable 3)] \<and>
   map_sum id (\<lambda>s. tasks (ParentImpl_ActorDestroy (BackgroundThread 1) 3 s))
       (exec (take 4 teardown_run) (init_state True)) =
     Inr [(EventTarget MainThread,
           RequestMessageLoopRunnable (BackgroundThread 1)
             (Some (MessageLoopOf (BackgroundThread 1)))),
          (EventTarget (BackgroundThread 1), DestroyRunnable 3),
          (EventTarget (BackgroundThread 1), DestroyRunnable 3)] \<and>
   map_sum id (ParentImpl_ActorDestroy_asserts 3)
       (exec (take 4 teardown_run) (init_state True)) = Inr False"
  by code_simp

section \<open>Effects of thread creation\<close>

lemma CreateBackgroundThread_effect:
  assumes "CreateBackgroundThread e s = (ok, s1)"
  shows "isMainProcess s1 = isMainProcess s \<and>
         sBackgroundPRThread s1 = sBackgroundPRThread s \<and>
         sBackgroundThreadMessageLoop s1 = sBackgroundThreadMessageLoop s \<and>
         sLiveActorCount s1 = sLiveActorCount s \<and>
         sShutdownHasStarted s1 = sShutdownHasStarted s \<and>
         sPendingCallbacks s1 = sPendingCallbacks s \<and>
         sPendingTargets s1 = sPendingTargets s \<and>
         sShutdownHasStartedChild s1 = sShutdownHasStartedChild s \<and>
         threadLocal s1 = threadLocal s \<and>
         parents s1 = parents s \<and>
         children s1 = children s \<and>
         spin s1 = spin s \<and>
         nextAddr s \<le> nextAddr s1 \<and>
         (ok \<longrightarrow> \<not> sShutdownHasStarted s \<and> sBackgroundThread s1 \<noteq> None \<and>
                sLiveActorsForBackgroundThread s1 \<noteq> None \<and> sShutdownTimer s1 \<noteq> None) \<and>
         (\<not> ok \<longrightarrow> sBackgroundThread s1 = sBackgroundThread s \<and> arrays s1 = arrays s \<and>
                  tasks s1 = tasks s \<and> sShutdownTimer s1 = sShutdownTimer s \<and>
                  sLiveActorsForBackgroundThread s1 = sLiveActorsForBackgroundThread s) \<and>
         (\<forall>la. arrays s1 la = arrays s la \<or> arrays s1 la = []) \<and>
         (\<exists>ts. tasks s1 = tasks s @ ts \<and>
               (\<forall>x \<in> set ts. \<exists>th. x = (EventTarget th, RequestMessageLoopRunnable th None))) \<and>
         (sShutdownHasStarted s \<longrightarrow> s1 = s \<and> \<not> ok)"
  using assms
  by (auto simp: CreateBackgroundThread_def Let_def emit_def Dispatch_def split: if_splits)

section \<open>Allocation of an actor for another process\<close>

lemma Alloc_cases:
  obtains
    (no_handle) "e_OpenProcessHandle e = None" "Alloc e aContent aTransport s = Inr (None, s)"
  | (no_thread) h s1 where "e_OpenProcessHandle e = Some h" "sBackgroundThread s = None"
      "CreateBackgroundThread e s = (False, s1)"
      "Alloc e aContent aTransport s = Inr (None, s1)"
  | (no_dispatch) h s1 s4 s5 where "e_OpenProcessHandle e = Some h"
      "(if sBackgroundThread s = None then CreateBackgroundThread e s else (True, s)) = (True, s1)"
      "\<not> e_DispatchConnect e"
      "s4 = s1\<lparr>nextAddr := Suc (nextAddr s1),
               parents := (parents s1)(nextAddr s1 \<mapsto> ParentImpl_new_other aContent aTransport)\<rparr>"
      "(if sLiveActorCount s4 = 0 then ShutdownBackgroundThread e s4 else Inr s4) = Inr s5"
      "Alloc e aContent aTransport s = Inr (None, s5\<lparr>parents := (parents s5)(nextAddr s1 := None)\<rparr>)"
  | (success) h s1 th where "e_OpenProcessHandle e = Some h"
      "(if sBackgroundThread s = None then CreateBackgroundThread e s else (True, s)) = (True, s1)"
      "e_DispatchConnect e" "sBackgroundThread s1 = Some th"
      "Alloc e aContent aTransport s =
         Inr (Some (nextAddr s1),
              Dispatch (EventTarget th)
                (ConnectActorRunnable (nextAddr s1) aTransport h (sLiveActorsForBackgroundThread s1))
                (s1\<lparr>sLiveActorCount := sLiveActorCount s1 + 1, nextAddr := Suc (nextAddr s1),
                    parents := (parents s1)(nextAddr s1 \<mapsto> ParentImpl_new_other aContent aTransport)\<rparr>))"
proof (cases "e_OpenProcessHandle e")
  case None
  then show ?thesis using no_handle by (simp add: Alloc_def)
next
  case (Some h)
  obtain ok s1 where c: "(if sBackgroundThread s = None then CreateBackgroundThread e s else (True, s)) = (ok, s1)"
    by (cases "(if sBackgroundThread s = None then CreateBackgroundThread e s else (True, s))") auto
  show ?thesis
  proof (cases ok)
    case False
    then have n: "sBackgroundThread s = None" and cb: "CreateBackgroundThread e s = (False, s1)"
      using c by (auto split: if_splits)
    have "Alloc e aContent aTransport s = Inr (None, s1)"
      using Some c False by (simp add: Alloc_def)
    then show ?thesis using no_thread Some n cb by blast
  next
    case True
    have th: "sBackgroundThread s1 \<noteq> None"
    proof (cases "sBackgroundThread s = None")
      case True
      with c \<open>ok\<close> have "CreateBackgroundThread e s = (True, s1)" by simp
      from CreateBackgroundThread_effect [OF this] show ?thesis by simp
    next
      case False
      with c show ?thesis by auto
    qed
    then obtain th where th: "sBackgroundThread s1 = Some th" by auto
    have c': "(if sBackgroundThread s = None then CreateBackgroundThread e s else (True, s)) = (True, s1)"
      using c True by simp
    show ?thesis
    proof (cases "e_DispatchConnect e")
      case d: True
      have "Alloc e aContent aTransport s =
         Inr (Some (nextAddr s1),
              Dispatch (EventTarget th)
                (ConnectActorRunnable (nextAddr s1) aTransport h (sLiveActorsForBackgroundThread s1))
                (s1\<lparr>sLiveActorCount := sLiveActorCount s1 + 1, nextAddr := Suc (nextAddr s1),
                    parents := (parents s1)(nextAddr s1 \<mapsto> ParentImpl_new_other aContent aTransport)\<rparr>))"
        using Some c True th d by (simp add: Alloc_def Let_def)
      then show ?thesis by (rule success [OF Some c' d th])
    next
      case d: False
      define s4 where "s4 = s1\<lparr>nextAddr := Suc (nextAddr s1),
               parents := (parents s1)(nextAddr s1 \<mapsto> ParentImpl_new_other aContent aTransport)\<rparr>"
      have "\<exists>s5. (if sLiveActorCount s4 = 0 then ShutdownBackgroundThread e s4 else Inr s4) = Inr s5"
        using ShutdownBackgroundThread_at_zero [of s4 e] by auto
      then obtain s5 where s5: "(if sLiveActorCount s4 = 0 then ShutdownBackgroundThread e s4 else Inr s4) = Inr s5"
        by blast
      have "Alloc e aContent aTransport s =
          and_then (if sLiveActorCount s4 = 0 then ShutdownBackgroundThread e s4 else Inr s4)
            (\<lambda>s5. Inr (None, s5\<lparr>parents := (parents s5)(nextAddr s1 := None)\<rparr>))"
        using Some c True th d
        by (simp add: Alloc_def Let_def s4_def)
      then have "Alloc e aContent aTransport s = Inr (None, s5\<lparr>parents := (parents s5)(nextAddr s1 := None)\<rparr>)"
        unfolding s5 by (simp add: and_then_def)
      then show ?thesis by (rule no_dispatch [OF Some c' d s4_def s5])
    qed
  qed
qed

text \<open>
  C6. \<open>ParentImpl::Alloc\<close> always returns. It returns no actor, and changes nothing, when
  the peer's process handle cannot be opened; it returns no actor when the background thread
  cannot be created and when the connect task cannot be dispatched. Whenever it returns no
  actor, the live-actor count has its prior value, every actor in the store was there
  before, no live-actor array has gained an element, and no connect task was queued.
\<close>

theorem Alloc_failure_leaves_nothing_registered:
  "\<exists>r s'. Alloc e aContent aTransport s = Inr (r, s') \<and>
     (e_OpenProcessHandle e = None \<longrightarrow> r = None \<and> s' = s) \<and>
     (sBackgroundThread s = None \<and> \<not> fst (CreateBackgroundThread e s) \<longrightarrow> r = None) \<and>
     (\<not> e_DispatchConnect e \<longrightarrow> r = None) \<and>
     (r = None \<longrightarrow>
        sLiveActorCount s' = sLiveActorCount s \<and>
        (\<forall>a p. parents s' a = Some p \<longrightarrow> parents s a = Some p) \<and>
        (\<forall>la. set (arrays s' la) \<subseteq> set (arrays s la)) \<and>
        (\<forall>x \<in> set (tasks s'). (\<exists>a t h l. snd x = ConnectActorRunnable a t h l) \<longrightarrow>
                                x \<in> set (tasks s)))"
proof (cases e aContent aTransport s rule: Alloc_cases)
  case no_handle
  then show ?thesis by simp
next
  case (no_thread h s1)
  from CreateBackgroundThread_effect [OF no_thread(3)] no_thread(1,4)
  show ?thesis by simp
next
  case (no_dispatch h s1 s4 s5)
  have e1: "sLiveActorCount s1 = sLiveActorCount s \<and> parents s1 = parents s \<and>
            (\<forall>la. arrays s1 la = arrays s la \<or> arrays s1 la = []) \<and>
            (\<exists>ts. tasks s1 = tasks s @ ts \<and>
               (\<forall>x \<in> set ts. \<exists>th. x = (EventTarget th, RequestMessageLoopRunnable th None)))"
  proof (cases "sBackgroundThread s = None")
    case True
    with no_dispatch(2) have "CreateBackgroundThread e s = (True, s1)" by simp
    from CreateBackgroundThread_effect [OF this] show ?thesis by blast
  next
    case False
    with no_dispatch(2) have "s1 = s" by simp
    then show ?thesis by simp
  qed
  have e5: "sLiveActorCount s5 = sLiveActorCount s4 \<and> parents s5 = parents s4 \<and>
            arrays s5 = arrays s4 \<and>
            (\<exists>ts. tasks s5 = tasks s4 @ ts \<and>
               (\<forall>x \<in> set ts. snd x = FailedCreateCallbackRunnable \<or>
                                snd x = ShutdownBackgroundThreadRunnable))"
  proof (cases "sLiveActorCount s4 = 0")
    case True
    with no_dispatch(5) have "ShutdownBackgroundThread e s4 = Inr s5" by simp
    from ShutdownBackgroundThread_effect [OF this] show ?thesis by blast
  next
    case False
    with no_dispatch(5) have "s5 = s4" by simp
    then show ?thesis by simp
  qed
  have c: "sLiveActorCount s5 = sLiveActorCount s"
    using e1 e5 by (simp add: no_dispatch(4))
  have p: "\<forall>a p. ((parents s5)(nextAddr s1 := None)) a = Some p \<longrightarrow> parents s a = Some p"
    using e1 e5 by (auto simp: no_dispatch(4) split: if_splits)
  have a: "\<forall>la. set (arrays s5 la) \<subseteq> set (arrays s la)"
  proof
    fix la
    have "arrays s5 la = arrays s1 la" using e5 by (simp add: no_dispatch(4))
    moreover have "arrays s1 la = arrays s la \<or> arrays s1 la = []" using e1 by blast
    ultimately show "set (arrays s5 la) \<subseteq> set (arrays s la)" by auto
  qed
  have t: "\<forall>x \<in> set (tasks s5). (\<exists>a t h l. snd x = ConnectActorRunnable a t h l) \<longrightarrow>
                                x \<in> set (tasks s)"
  proof -
    obtain ts1 where ts1: "tasks s1 = tasks s @ ts1"
      "\<forall>x \<in> set ts1. \<exists>th. x = (EventTarget th, RequestMessageLoopRunnable th None)"
      using e1 by blast
    obtain ts5 where ts5: "tasks s5 = tasks s4 @ ts5"
      "\<forall>x \<in> set ts5. snd x = FailedCreateCallbackRunnable \<or>
                       snd x = ShutdownBackgroundThreadRunnable"
      using e5 by blast
    have "tasks s5 = tasks s @ ts1 @ ts5" using ts1(1) ts5(1) by (simp add: no_dispatch(4))
    then show ?thesis using ts1(2) ts5(2) by fastforce
  qed
  show ?thesis using no_dispatch(1,3,6) c p a t by simp
next
  case (success h s1 th)
  have "\<not> (sBackgroundThread s = None \<and> \<not> fst (CreateBackgroundThread e s))"
    using success(2) by (auto split: if_splits)
  then show ?thesis using success(1,3,5) by simp
qed

theorem Alloc_failure_leaves_nothing_registered_witness:
  "\<exists>s'. Alloc (env_ok\<lparr>e_DispatchConnect := False\<rparr>) 8 9 (init_state True) = Inr (None, s') \<and>
        sLiveActorCount s' = 0 \<and> parents s' 3 = None"
proof -
  from Alloc_failure_leaves_nothing_registered
         [of "env_ok\<lparr>e_DispatchConnect := False\<rparr>" 8 9 "init_state True"]
  obtain r s' where
    "Alloc (env_ok\<lparr>e_DispatchConnect := False\<rparr>) 8 9 (init_state True) = Inr (r, s')"
    and "\<not> e_DispatchConnect (env_ok\<lparr>e_DispatchConnect := False\<rparr>) \<longrightarrow> r = None"
    and "r = None \<longrightarrow> sLiveActorCount s' = sLiveActorCount (init_state True) \<and>
        (\<forall>a p. parents s' a = Some p \<longrightarrow> parents (init_state True) a = Some p)"
    by blast
  moreover have "parents (init_state True) 3 = None \<and> sLiveActorCount (init_state True) = 0"
    by (simp add: init_state_def)
  ultimately show ?thesis
    by (cases "parents s' 3") auto
qed

section \<open>Same-process allocation\<close>

lemma dispatch_callbacks_effect:
  "\<exists>cbs'. dispatch_callbacks e n cbs s =
      s\<lparr>tasks := tasks s @ map (\<lambda>cb. (EventTarget MainThread, CreateCallbackRunnable cb)) cbs'\<rparr> \<and>
      set cbs' \<subseteq> set cbs \<and> length cbs' \<le> length cbs \<and>
      ((\<forall>i. e_DispatchCallback e i) \<longrightarrow> cbs' = cbs)"
proof (induction cbs arbitrary: n s)
  case Nil
  have "dispatch_callbacks e n [] s =
      s\<lparr>tasks := tasks s @ map (\<lambda>cb. (EventTarget MainThread, CreateCallbackRunnable cb)) []\<rparr>"
    by simp
  then show ?case by blast
next
  case (Cons cb cbs)
  let ?s1 = "(if e_DispatchCallback e n
        then Dispatch (EventTarget MainThread) (CreateCallbackRunnable cb) s else s)"
  from Cons [of "Suc n" ?s1] obtain cbs' where
    d: "dispatch_callbacks e (Suc n) cbs ?s1 =
      ?s1\<lparr>tasks := tasks ?s1 @ map (\<lambda>cb. (EventTarget MainThread, CreateCallbackRunnable cb)) cbs'\<rparr>"
    and sub: "set cbs' \<subseteq> set cbs" "length cbs' \<le> length cbs"
    and al: "(\<forall>i. e_DispatchCallback e i) \<longrightarrow> cbs' = cbs" by blast
  show ?case
  proof (cases "e_DispatchCallback e n")
    case True
    have "dispatch_callbacks e n (cb # cbs) s =
      s\<lparr>tasks := tasks s @ map (\<lambda>cb. (EventTarget MainThread, CreateCallbackRunnable cb)) (cb # cbs')\<rparr>"
      using d True by (simp add: Dispatch_def)
    moreover have "set (cb # cbs') \<subseteq> set (cb # cbs)" using sub by auto
    moreover have "length (cb # cbs') \<le> length (cb # cbs)" using sub by simp
    moreover have "(\<forall>i. e_DispatchCallback e i) \<longrightarrow> cb # cbs' = cb # cbs" using al by simp
    ultimately show ?thesis by blast
  next
    case False
    have "dispatch_callbacks e n (cb # cbs) s =
      s\<lparr>tasks := tasks s @ map (\<lambda>cb. (EventTarget MainThread, CreateCallbackRunnable cb)) cbs'\<rparr>"
      using d False by simp
    moreover have "set cbs' \<subseteq> set (cb # cbs)" using sub by auto
    moreover have "length cbs' \<le> length (cb # cbs)" using sub by simp
    moreover have "(\<forall>i. e_DispatchCallback e i) \<longrightarrow> cbs' = cb # cbs" using False by auto
    ultimately show ?thesis by blast
  qed
qed

lemma CreateActorForSameProcess_cases:
  obtains
    (no_thread) s1 where "sBackgroundThread s = None" "CreateBackgroundThread e s = (False, s1)"
      "CreateActorForSameProcess e cb s = (False, s1)"
  | (immediate) s1 lp where
      "(if sBackgroundThread s = None then CreateBackgroundThread e s else (True, s)) = (True, s1)"
      "sBackgroundThreadMessageLoop s1 = Some lp"
      "CreateActorForSameProcess e cb s =
         (True, s1\<lparr>sLiveActorCount := sLiveActorCount s1 + 1,
                   tasks := tasks s1 @ [(EventTarget MainThread, CreateCallbackRunnable cb)]\<rparr>)"
  | (pending) s1 where
      "(if sBackgroundThread s = None then CreateBackgroundThread e s else (True, s)) = (True, s1)"
      "sBackgroundThreadMessageLoop s1 = None"
      "CreateActorForSameProcess e cb s =
         (True, s1\<lparr>sLiveActorCount := sLiveActorCount s1 + 1,
                   sPendingCallbacks :=
                     Some ((case sPendingCallbacks s1 of None \<Rightarrow> [] | Some cbs \<Rightarrow> cbs) @ [cb])\<rparr>)"
proof -
  obtain ok s1 where c: "(if sBackgroundThread s = None then CreateBackgroundThread e s else (True, s)) = (ok, s1)"
    by (cases "(if sBackgroundThread s = None then CreateBackgroundThread e s else (True, s))") auto
  show ?thesis
  proof (cases ok)
    case False
    then have n: "sBackgroundThread s = None" and cb: "CreateBackgroundThread e s = (False, s1)"
      using c by (auto split: if_splits)
    have "CreateActorForSameProcess e cb s = (False, s1)"
      using c False by (simp add: CreateActorForSameProcess_def)
    then show ?thesis by (rule no_thread [OF n cb])
  next
    case True
    have c': "(if sBackgroundThread s = None then CreateBackgroundThread e s else (True, s)) = (True, s1)"
      using c True by simp
    show ?thesis
    proof (cases "sBackgroundThreadMessageLoop s1")
      case (Some lp)
      have "CreateActorForSameProcess e cb s =
         (True, s1\<lparr>sLiveActorCount := sLiveActorCount s1 + 1,
                   tasks := tasks s1 @ [(EventTarget MainThread, CreateCallbackRunnable cb)]\<rparr>)"
        using c' Some by (simp add: CreateActorForSameProcess_def Let_def Dispatch_def)
      then show ?thesis by (rule immediate [OF c' Some])
    next
      case None
      have "CreateActorForSameProcess e cb s =
         (True, s1\<lparr>sLiveActorCount := sLiveActorCount s1 + 1,
                   sPendingCallbacks :=
                     Some ((case sPendingCallbacks s1 of None \<Rightarrow> [] | Some cbs \<Rightarrow> cbs) @ [cb])\<rparr>)"
        using c' None
        by (cases "sPendingCallbacks s1") (simp_all add: CreateActorForSameProcess_def Let_def)
      then show ?thesis by (rule pending [OF c' None])
    qed
  qed
qed

text \<open>
  C7. A successful \<open>CreateActorForSameProcess\<close> leaves a background thread in place and
  the live-actor count one higher. If the message loop of the background thread is
  published, it has queued a \<open>CreateCallbackRunnable\<close> for the callback on the main thread,
  which is the calling thread, and the pending queue is untouched; otherwise it has appended
  the callback to the pending queue and queued no such task. \<open>CreateCallbackRunnable::Run\<close>
  constructs a parent actor without transport at the next address and calls
  \<open>Success\<close> on the callback with that actor and the published message loop. When the
  background thread publishes its message loop (the main-thread leg of
  \<open>RequestMessageLoopRunnable\<close>, all dispatches succeeding), the pending queue is emptied
  into one \<open>CreateCallbackRunnable\<close> per waiter at the tail of the main thread's queue,
  in the order of the pending queue.
\<close>

theorem CreateActorForSameProcess_immediate_or_pending:
  "(\<forall>s'. CreateActorForSameProcess e cb s = (True, s') \<longrightarrow>
        sBackgroundThread s' \<noteq> None \<and> sLiveActorCount s' = sLiveActorCount s + 1 \<and>
        (sBackgroundThreadMessageLoop s' \<noteq> None \<longrightarrow>
           (\<exists>ts. tasks s' = tasks s @ ts @ [(EventTarget MainThread, CreateCallbackRunnable cb)]) \<and>
           sPendingCallbacks s' = sPendingCallbacks s) \<and>
        (sBackgroundThreadMessageLoop s' = None \<longrightarrow>
           sPendingCallbacks s' =
             Some ((case sPendingCallbacks s of None \<Rightarrow> [] | Some cbs \<Rightarrow> cbs) @ [cb]) \<and>
           (\<forall>x \<in> set (tasks s'). snd x = CreateCallbackRunnable cb \<longrightarrow> x \<in> set (tasks s)))) \<and>
   trace (CreateCallbackRunnable_Run e cb s) =
     trace s @ [CallbackSuccess cb (nextAddr s) (sBackgroundThreadMessageLoop s)] \<and>
   (e_DispatchOpen e \<longrightarrow>
      parents (CreateCallbackRunnable_Run e cb s) (nextAddr s) = Some ParentImpl_new) \<and>
   mTransport ParentImpl_new = None \<and>
   (sBackgroundThread s = Some th \<and> sPendingCallbacks s = Some cbs \<and>
    (\<forall>i. e_DispatchCallback e i) \<longrightarrow>
      RequestMessageLoopRunnable_Run e MainThread th lp s =
        s\<lparr>sBackgroundThreadMessageLoop := lp, sPendingCallbacks := Some [],
          tasks := tasks s @ map (\<lambda>c. (EventTarget MainThread, CreateCallbackRunnable c)) cbs\<rparr>)"
proof (intro conjI allI impI)
  fix s'
  assume a: "CreateActorForSameProcess e cb s = (True, s')"
  have e1: "\<And>s1. (if sBackgroundThread s = None then CreateBackgroundThread e s else (True, s)) = (True, s1)
      \<Longrightarrow> sBackgroundThread s1 \<noteq> None \<and> sLiveActorCount s1 = sLiveActorCount s \<and>
          sBackgroundThreadMessageLoop s1 = sBackgroundThreadMessageLoop s \<and>
          sPendingCallbacks s1 = sPendingCallbacks s \<and>
          (\<exists>ts. tasks s1 = tasks s @ ts \<and>
               (\<forall>x \<in> set ts. \<exists>th. x = (EventTarget th, RequestMessageLoopRunnable th None)))"
  proof -
    fix s1
    assume c: "(if sBackgroundThread s = None then CreateBackgroundThread e s else (True, s)) = (True, s1)"
    show "sBackgroundThread s1 \<noteq> None \<and> sLiveActorCount s1 = sLiveActorCount s \<and>
          sBackgroundThreadMessageLoop s1 = sBackgroundThreadMessageLoop s \<and>
          sPendingCallbacks s1 = sPendingCallbacks s \<and>
          (\<exists>ts. tasks s1 = tasks s @ ts \<and>
               (\<forall>x \<in> set ts. \<exists>th. x = (EventTarget th, RequestMessageLoopRunnable th None)))"
    proof (cases "sBackgroundThread s = None")
      case True
      with c have "CreateBackgroundThread e s = (True, s1)" by simp
      from CreateBackgroundThread_effect [OF this] show ?thesis by blast
    next
      case False
      with c have "s1 = s" by simp
      then show ?thesis using False by simp
    qed
  qed
  have "sBackgroundThread s' \<noteq> None \<and> sLiveActorCount s' = sLiveActorCount s + 1 \<and>
        (sBackgroundThreadMessageLoop s' \<noteq> None \<longrightarrow>
           (\<exists>ts. tasks s' = tasks s @ ts @ [(EventTarget MainThread, CreateCallbackRunnable cb)]) \<and>
           sPendingCallbacks s' = sPendingCallbacks s) \<and>
        (sBackgroundThreadMessageLoop s' = None \<longrightarrow>
           sPendingCallbacks s' =
             Some ((case sPendingCallbacks s of None \<Rightarrow> [] | Some cbs \<Rightarrow> cbs) @ [cb]) \<and>
           (\<forall>x \<in> set (tasks s'). snd x = CreateCallbackRunnable cb \<longrightarrow> x \<in> set (tasks s)))"
  proof (cases rule: CreateActorForSameProcess_cases [where s=s and e=e and cb=cb])
    case (no_thread s1)
    then show ?thesis using a by simp
  next
    case (immediate s1 lp)
    from e1 [OF immediate(1)] obtain ts where
      f: "sBackgroundThread s1 \<noteq> None" "sLiveActorCount s1 = sLiveActorCount s"
         "sPendingCallbacks s1 = sPendingCallbacks s" "tasks s1 = tasks s @ ts" by blast
    have s': "s' = s1\<lparr>sLiveActorCount := sLiveActorCount s1 + 1,
                   tasks := tasks s1 @ [(EventTarget MainThread, CreateCallbackRunnable cb)]\<rparr>"
      using a immediate(3) by simp
    show ?thesis using f immediate(2) by (simp add: s')
  next
    case (pending s1)
    from e1 [OF pending(1)] obtain ts where
      f: "sBackgroundThread s1 \<noteq> None" "sLiveActorCount s1 = sLiveActorCount s"
         "sPendingCallbacks s1 = sPendingCallbacks s" "tasks s1 = tasks s @ ts"
         "\<forall>x \<in> set ts. \<exists>th. x = (EventTarget th, RequestMessageLoopRunnable th None)" by blast
    have s': "s' = s1\<lparr>sLiveActorCount := sLiveActorCount s1 + 1,
                   sPendingCallbacks :=
                     Some ((case sPendingCallbacks s1 of None \<Rightarrow> [] | Some cbs \<Rightarrow> cbs) @ [cb])\<rparr>"
      using a pending(3) by simp
    have "\<forall>x \<in> set (tasks s1). snd x = CreateCallbackRunnable cb \<longrightarrow> x \<in> set (tasks s)"
      using f(4,5) by fastforce
    then show ?thesis using f(1,2,3) pending(2) by (simp add: s')
  qed
  then show "sBackgroundThread s' \<noteq> None"
    and "sLiveActorCount s' = sLiveActorCount s + 1"
    and "sBackgroundThreadMessageLoop s' \<noteq> None \<Longrightarrow>
           \<exists>ts. tasks s' = tasks s @ ts @ [(EventTarget MainThread, CreateCallbackRunnable cb)]"
    and "sBackgroundThreadMessageLoop s' \<noteq> None \<Longrightarrow> sPendingCallbacks s' = sPendingCallbacks s"
    and "sBackgroundThreadMessageLoop s' = None \<Longrightarrow> sPendingCallbacks s' =
             Some ((case sPendingCallbacks s of None \<Rightarrow> [] | Some cbs \<Rightarrow> cbs) @ [cb])"
    and "sBackgroundThreadMessageLoop s' = None \<Longrightarrow>
           \<forall>x \<in> set (tasks s'). snd x = CreateCallbackRunnable cb \<longrightarrow> x \<in> set (tasks s)"
    by blast+
next
  show "trace (CreateCallbackRunnable_Run e cb s) =
     trace s @ [CallbackSuccess cb (nextAddr s) (sBackgroundThreadMessageLoop s)]"
    by (cases cb) (simp add: CreateCallbackRunnable_Run_def Let_def emit_def Dispatch_def)
next
  assume "e_DispatchOpen e"
  then show "parents (CreateCallbackRunnable_Run e cb s) (nextAddr s) = Some ParentImpl_new"
    by (cases cb) (simp add: CreateCallbackRunnable_Run_def Let_def emit_def Dispatch_def)
next
  show "mTransport ParentImpl_new = None" by (simp add: ParentImpl_new_def)
next
  assume a: "sBackgroundThread s = Some th \<and> sPendingCallbacks s = Some cbs \<and>
    (\<forall>i. e_DispatchCallback e i)"
  let ?s1 = "s\<lparr>sBackgroundThreadMessageLoop := lp\<rparr>"
  show "RequestMessageLoopRunnable_Run e MainThread th lp s =
        s\<lparr>sBackgroundThreadMessageLoop := lp, sPendingCallbacks := Some [],
          tasks := tasks s @ map (\<lambda>c. (EventTarget MainThread, CreateCallbackRunnable c)) cbs\<rparr>"
  proof (cases "cbs = []")
    case True
    have "s\<lparr>sPendingCallbacks := Some []\<rparr> = s" using a True by (metis state.surjective state.update_convs(10))
    then show ?thesis using a True
      by (simp add: RequestMessageLoopRunnable_Run_def)
  next
    case False
    from dispatch_callbacks_effect [of e 0 cbs "?s1\<lparr>sPendingCallbacks := Some []\<rparr>"] a
    have "dispatch_callbacks e 0 cbs (?s1\<lparr>sPendingCallbacks := Some []\<rparr>) =
      (?s1\<lparr>sPendingCallbacks := Some []\<rparr>)
        \<lparr>tasks := tasks (?s1\<lparr>sPendingCallbacks := Some []\<rparr>) @
            map (\<lambda>cb. (EventTarget MainThread, CreateCallbackRunnable cb)) cbs\<rparr>"
      by auto
    then show ?thesis using a False
      by (simp add: RequestMessageLoopRunnable_Run_def)
  qed
qed


theorem CreateActorForSameProcess_immediate_or_pending_witness:
  "\<exists>s'. CreateActorForSameProcess env_ok (ParentCreateCallback 0 (WorkerThread 1))
           (init_state True) = (True, s') \<and>
        sLiveActorCount s' = 1 \<and>
        sPendingCallbacks s' = Some [ParentCreateCallback 0 (WorkerThread 1)]"
proof -
  have "\<exists>s'. CreateActorForSameProcess env_ok (ParentCreateCallback 0 (WorkerThread 1))
           (init_state True) = (True, s') \<and> sBackgroundThreadMessageLoop s' = None"
    by (simp add: CreateActorForSameProcess_def CreateBackgroundThread_def env_ok_def
          init_state_def Let_def emit_def Dispatch_def)
  then obtain s' where
    c: "CreateActorForSameProcess env_ok (ParentCreateCallback 0 (WorkerThread 1))
           (init_state True) = (True, s')"
    and l: "sBackgroundThreadMessageLoop s' = None" by blast
  have i: "sLiveActorCount (init_state True) = 0 \<and> sPendingCallbacks (init_state True) = None"
    by (simp add: init_state_def)
  from CreateActorForSameProcess_immediate_or_pending
         [of env_ok "ParentCreateCallback 0 (WorkerThread 1)" "init_state True"] c l
  have "sLiveActorCount s' = sLiveActorCount (init_state True) + 1 \<and>
        sPendingCallbacks s' =
          Some ((case sPendingCallbacks (init_state True) of None \<Rightarrow> [] | Some cbs \<Rightarrow> cbs) @
                [ParentCreateCallback 0 (WorkerThread 1)])"
    by blast
  then show ?thesis using c i by auto
qed

section \<open>Effects of the child-side functions\<close>

lemma GetNextCallback_effect:
  assumes "GetNextCallback t s = Inr (c, s')"
  shows "\<exists>tl. s' = s\<lparr>threadLocal := tl\<rparr>"
proof (cases "threadLocal s t")
  case None
  then show ?thesis using assms by (simp add: GetNextCallback_def)
next
  case (Some info)
  show ?thesis
  proof (cases "mCallbacks info")
    case Nil
    then have "s' = s" using assms Some by (simp add: GetNextCallback_def)
    then have "s' = s\<lparr>threadLocal := threadLocal s\<rparr>" by simp
    then show ?thesis by blast
  next
    case (Cons cb rest)
    then have "s' = s\<lparr>threadLocal := (threadLocal s)(t \<mapsto> info\<lparr>mCallbacks := rest\<rparr>)\<rparr>"
      using assms Some by (auto simp: GetNextCallback_def)
    then show ?thesis by blast
  qed
qed

lemma drain_effect:
  "drain notify t c s = Inr s' \<Longrightarrow>
   \<exists>tl evs. s' = s\<lparr>threadLocal := tl, trace := trace s @ evs\<rparr> \<and> set evs \<subseteq> range notify"
proof (induction notify t c s arbitrary: s' rule: drain.induct)
  case (1 notify t s)
  have "s = s\<lparr>threadLocal := threadLocal s, trace := trace s @ []\<rparr>" by simp
  moreover have "set ([]::event list) \<subseteq> range notify" by simp
  ultimately show ?case using 1 by (metis drain.simps(1) sum.inject(2))
next
  case (2 notify t cb s)
  from "2.prems" obtain nxt s1 where
    g: "GetNextCallback t (emit (notify cb) s) = Inr (nxt, s1)"
    and d: "drain notify t nxt s1 = Inr s'"
    by (auto simp: drain.simps(2) split: sum.splits)
  from GetNextCallback_effect [OF g] obtain tl1 where
    s1: "s1 = (emit (notify cb) s)\<lparr>threadLocal := tl1\<rparr>" by blast
  from "2.IH" [OF g refl d] obtain tl evs where
    s': "s' = s1\<lparr>threadLocal := tl, trace := trace s1 @ evs\<rparr>"
    and evs: "set evs \<subseteq> range notify" by blast
  have "s' = s\<lparr>threadLocal := tl, trace := trace s @ (notify cb # evs)\<rparr>"
    by (simp add: s' s1 emit_def)
  moreover have "set (notify cb # evs) \<subseteq> range notify" using evs by auto
  ultimately show ?case by blast
qed


section \<open>Quiet steps\<close>

lemma task_holds_simps [simp]:
  "task_holds [] = 0"
  "task_holds (ts @ us) = task_holds ts + task_holds us"
  "task_holds ((tg, r) # ts) = (if is_hold r then 1 else 0) + task_holds ts"
  by (simp_all add: task_holds_def)

lemma neutral_holds [simp]: "neutral ts \<Longrightarrow> task_holds ts = 0"
  by (induction ts) (auto simp: neutral_def)

lemma neutral_simps [simp]:
  "neutral []"
  "neutral (ts @ us) \<longleftrightarrow> neutral ts \<and> neutral us"
  "neutral ((tg, r) # ts) \<longleftrightarrow> \<not> is_hold r \<and> neutral ts"
  by (auto simp: neutral_def)

lemma quiet_step_refl [simp]: "quiet_step s s"
  by (simp add: quiet_step_def)

lemma quiet_step_trans:
  assumes "quiet_step s s1" and "quiet_step s1 s2"
  shows "quiet_step s s2"
proof -
  obtain ts1 where ts1: "tasks s1 = tasks s @ ts1" "neutral ts1"
    using assms(1) unfolding quiet_step_def by blast
  obtain ts2 where ts2: "tasks s2 = tasks s1 @ ts2" "neutral ts2"
    using assms(2) unfolding quiet_step_def by blast
  have "tasks s2 = tasks s @ (ts1 @ ts2) \<and> neutral (ts1 @ ts2)"
    using ts1 ts2 by simp
  then have t: "\<exists>ts. tasks s2 = tasks s @ ts \<and> neutral ts" by blast
  show ?thesis
    using assms t unfolding quiet_step_def by simp
qed

lemma quiet_step_shutdown_inv: "shutdown_inv s \<Longrightarrow> quiet_step s s' \<Longrightarrow> shutdown_inv s'"
  by (auto simp: shutdown_inv_def quiet_step_def)

lemma quiet_step_count_inv_with:
  assumes "count_inv_with h s" and "quiet_step s s'"
  shows "count_inv_with h s'"
proof -
  obtain ts where ts: "tasks s' = tasks s @ ts" "neutral ts"
    using assms(2) unfolding quiet_step_def by blast
  have p: "parents s' = parents s" "nextAddr s \<le> nextAddr s'"
    "sLiveActorCount s' = sLiveActorCount s" "sPendingCallbacks s' = sPendingCallbacks s"
    using assms(2) unfolding quiet_step_def by simp_all
  have w: "waiters s' = waiters s" by (simp add: waiters_def p)
  have d: "dom (parents s') \<subseteq> {..<nextAddr s'}"
    using assms(1) p(1,2) unfolding count_inv_with_def by auto
  show ?thesis
    using assms(1) d unfolding count_inv_with_def
    by (simp add: w ts p(1,3))
qed

lemmas quiet_defs = quiet_step_def observer_registrations_def emit_def Dispatch_def
  update_child_def

lemma GetNextCallback_quiet: "GetNextCallback t s = Inr (c, s') \<Longrightarrow> quiet_step s s'"
  using GetNextCallback_effect [of t s c s'] by (auto simp: quiet_defs)

lemma drain_quiet:
  assumes "\<And>c. notify c \<noteq> ObserverAdded" and "drain notify t c s = Inr s'"
  shows "quiet_step s s'"
proof -
  from drain_effect [OF assms(2)] obtain tl evs where
    s': "s' = s\<lparr>threadLocal := tl, trace := trace s @ evs\<rparr>" and evs: "set evs \<subseteq> range notify"
    by blast
  have "\<forall>ev \<in> set evs. ev \<noteq> ObserverAdded"
  proof
    fix ev assume "ev \<in> set evs"
    then obtain c where "ev = notify c" using evs by auto
    then show "ev \<noteq> ObserverAdded" using assms(1) by simp
  qed
  then have "filter (\<lambda>ev. ev = ObserverAdded) evs = []"
    by (simp add: filter_empty_conv)
  then show ?thesis by (simp add: s' quiet_defs)
qed

lemma AlreadyCreatedCallbackRunnable_Run_quiet:
  assumes "AlreadyCreatedCallbackRunnable_Run t s = Inr s'"
  shows "quiet_step s s'"
proof (cases "GetForCurrentThread t s")
  case None
  then show ?thesis using assms by (simp add: AlreadyCreatedCallbackRunnable_Run_def)
next
  case (Some actor)
  from assms Some obtain c s1 where g: "GetNextCallback t s = Inr (c, s1)"
    and d: "drain (\<lambda>cb. ActorCreated cb actor) t c s1 = Inr s'"
    by (auto simp: AlreadyCreatedCallbackRunnable_Run_def and_then_def split: sum.splits)
  show ?thesis
    by (rule quiet_step_trans [OF GetNextCallback_quiet [OF g] drain_quiet [OF _ d]]) simp
qed

lemma FailedCreateCallbackRunnable_Run_quiet:
  assumes "FailedCreateCallbackRunnable_Run t s = Inr s'"
  shows "quiet_step s s'"
proof -
  from assms obtain c s1 where g: "GetNextCallback t s = Inr (c, s1)"
    and d: "drain ActorFailed t c s1 = Inr s'"
    by (auto simp: FailedCreateCallbackRunnable_Run_def and_then_def split: sum.splits)
  show ?thesis
    by (rule quiet_step_trans [OF GetNextCallback_quiet [OF g] drain_quiet [OF _ d]]) simp
qed

lemma OpenChildProcessActorRunnable_Run_quiet:
  assumes "OpenChildProcessActorRunnable_Run e t ch s = Inr s'"
  shows "quiet_step s s'"
proof -
  from assms obtain c s1 where g: "GetNextCallback t s = Inr (c, s1)"
    and r: "(if \<not> e_Open e
          then (if isMainProcess s1 then drain ActorFailed t c s1 else Inl MozCrash)
          else
            case threadLocal s1 t of
              None \<Rightarrow> Inl NullDereference
            | Some threadLocalInfo \<Rightarrow>
                let s2 = s1\<lparr>threadLocal := (threadLocal s1)
                            (t \<mapsto> threadLocalInfo\<lparr>mActor := Some ch\<rparr>)\<rparr>;
                    s3 = SetBoundThread t ch s2
                in drain (\<lambda>cb. ActorCreated cb ch) t c s3) = Inr s'"
    by (auto simp: OpenChildProcessActorRunnable_Run_def and_then_def split: sum.splits)
  have q1: "quiet_step s s1" by (rule GetNextCallback_quiet [OF g])
  show ?thesis
  proof (cases "e_Open e")
    case False
    with r have "drain ActorFailed t c s1 = Inr s'" by (auto split: if_splits)
    from drain_quiet [OF _ this] have "quiet_step s1 s'" by simp
    then show ?thesis by (rule quiet_step_trans [OF q1])
  next
    case True
    with r obtain info where
      d: "drain (\<lambda>cb. ActorCreated cb ch) t c
            (SetBoundThread t ch (s1\<lparr>threadLocal := (threadLocal s1)
                            (t \<mapsto> info\<lparr>mActor := Some ch\<rparr>)\<rparr>)) = Inr s'"
      by (auto simp: Let_def split: option.splits)
    let ?s3 = "SetBoundThread t ch (s1\<lparr>threadLocal := (threadLocal s1)
                            (t \<mapsto> info\<lparr>mActor := Some ch\<rparr>)\<rparr>)"
    have q2: "quiet_step s1 ?s3" by (simp add: SetBoundThread_def quiet_defs)
    from drain_quiet [OF _ d] have q3: "quiet_step ?s3 s'" by simp
    show ?thesis by (rule quiet_step_trans [OF q1 quiet_step_trans [OF q2 q3]])
  qed
qed

lemma SetThreadPrivate_null_quiet: "quiet_step s (SetThreadPrivate_null t s)"
  by (auto simp: SetThreadPrivate_null_def ThreadLocalDestructor_def PBackgroundChild_Close_def
        ChildImpl_ActorDestroy_def Let_def quiet_defs split: option.splits)

lemma ChildImpl_Shutdown_quiet: "quiet_step s (ChildImpl_Shutdown s)"
proof (cases "sShutdownHasStartedChild s")
  case True
  then show ?thesis by (simp add: ChildImpl_Shutdown_def)
next
  case False
  have "quiet_step s (s\<lparr>sShutdownHasStartedChild := True\<rparr>)" by (simp add: quiet_defs)
  from quiet_step_trans [OF this SetThreadPrivate_null_quiet]
  show ?thesis using False by (simp add: ChildImpl_Shutdown_def)
qed

lemma CloseForCurrentThread_quiet:
  assumes "CloseForCurrentThread t s = Inr s'"
  shows "quiet_step s s'"
proof (cases "threadLocal s t")
  case None
  then show ?thesis using assms by (simp add: CloseForCurrentThread_def)
next
  case (Some info)
  define s1 where "s1 = (case mActor info of
                      Some c \<Rightarrow> emit (FlushPendingInterruptQueue c) s
                    | None \<Rightarrow> s)"
  have q: "quiet_step s s1"
    by (cases "mActor info") (simp_all add: s1_def quiet_defs)
  have "s' = SetThreadPrivate_null t s1"
    using assms Some by (simp add: CloseForCurrentThread_def s1_def)
  then show ?thesis using quiet_step_trans [OF q SetThreadPrivate_null_quiet] by simp
qed

lemma ChildImpl_Alloc_quiet: "ChildImpl_Alloc e tr s = Inr (r, s') \<Longrightarrow> quiet_step s s'"
  by (auto simp: ChildImpl_Alloc_def Let_def quiet_defs split: option.splits list.splits if_splits)

lemma ChildImpl_ActorDestroy_quiet: "quiet_step s (ChildImpl_ActorDestroy c s)"
  by (simp add: ChildImpl_ActorDestroy_def quiet_defs)

lemma DispatchFailureCallback_quiet: "quiet_step s (DispatchFailureCallback e tg s)"
  by (simp add: DispatchFailureCallback_def quiet_defs)

section \<open>Steady and calm steps\<close>

lemma quiet_step_steady: "quiet_step s s' \<Longrightarrow> steady_step s s'"
  by (auto simp: quiet_step_def steady_step_def waiters_def)

lemma quiet_step_calm: "quiet_step s s' \<Longrightarrow> calm_step s s'"
  by (simp add: quiet_step_def calm_step_def)

lemma steady_step_refl [simp]: "steady_step s s"
  by (simp add: steady_step_def)

lemma calm_step_refl [simp]: "calm_step s s"
  by (simp add: calm_step_def)

lemma calm_step_trans: "calm_step s s1 \<Longrightarrow> calm_step s1 s2 \<Longrightarrow> calm_step s s2"
  by (simp add: calm_step_def)

lemma steady_step_trans:
  assumes "steady_step s s1" and "steady_step s1 s2"
  shows "steady_step s s2"
proof -
  obtain ts1 where ts1: "tasks s1 = tasks s @ ts1" "neutral ts1"
    using assms(1) unfolding steady_step_def by blast
  obtain ts2 where ts2: "tasks s2 = tasks s1 @ ts2" "neutral ts2"
    using assms(2) unfolding steady_step_def by blast
  have "tasks s2 = tasks s @ (ts1 @ ts2) \<and> neutral (ts1 @ ts2)"
    using ts1 ts2 by simp
  then have t: "\<exists>ts. tasks s2 = tasks s @ ts \<and> neutral ts" by blast
  show ?thesis
    using assms t unfolding steady_step_def by simp
qed

lemma calm_step_shutdown_inv: "shutdown_inv s \<Longrightarrow> calm_step s s' \<Longrightarrow> shutdown_inv s'"
  by (auto simp: shutdown_inv_def calm_step_def)

lemma steady_step_count_inv_with:
  assumes "count_inv_with h s" and "steady_step s s'"
  shows "count_inv_with h s'"
proof -
  obtain ts where ts: "tasks s' = tasks s @ ts" "neutral ts"
    using assms(2) unfolding steady_step_def by blast
  have p: "dom (parents s') = dom (parents s)" "nextAddr s \<le> nextAddr s'"
    "sLiveActorCount s' = sLiveActorCount s" "waiters s' \<le> waiters s"
    using assms(2) unfolding steady_step_def by simp_all
  have d: "dom (parents s') \<subseteq> {..<nextAddr s'}"
    using assms(1) p(1,2) unfolding count_inv_with_def by auto
  show ?thesis
    using assms(1) d p(4) unfolding count_inv_with_def
    by (simp add: ts p(1,3))
qed


lemma ShutdownBackgroundThread_steady:
  assumes "ShutdownBackgroundThread e s = Inr s'"
  shows "steady_step s s'"
proof -
  from ShutdownBackgroundThread_effect [OF assms] obtain ts where
    f: "parents s' = parents s" "sLiveActorCount s' = sLiveActorCount s"
       "nextAddr s' = nextAddr s" "sPendingCallbacks s' = None \<or> sPendingCallbacks s' = Some []"
       "tasks s' = tasks s @ ts"
       "\<forall>x \<in> set ts. snd x = FailedCreateCallbackRunnable \<or>
                                snd x = ShutdownBackgroundThreadRunnable"
    by blast
  have n: "neutral ts" using f(6) by (auto simp: neutral_def)
  have w: "waiters s' \<le> waiters s" using f(4) by (auto simp: waiters_def)
  show ?thesis using f(1,2,3,5) n w by (auto simp: steady_step_def)
qed

lemma CreateBackgroundThread_steady:
  assumes "CreateBackgroundThread e s = (ok, s1)"
  shows "steady_step s s1"
proof -
  from CreateBackgroundThread_effect [OF assms] obtain ts where
    f: "parents s1 = parents s" "sLiveActorCount s1 = sLiveActorCount s"
       "nextAddr s \<le> nextAddr s1" "sPendingCallbacks s1 = sPendingCallbacks s"
       "tasks s1 = tasks s @ ts"
       "\<forall>x \<in> set ts. \<exists>th. x = (EventTarget th, RequestMessageLoopRunnable th None)"
    by blast
  have n: "neutral ts" using f(6) by (auto simp: neutral_def)
  show ?thesis using f(1,2,3,4,5) n by (auto simp: steady_step_def waiters_def)
qed

lemma spin_check_steady: "steady_step s (spin_check s)"
  by (auto simp: spin_check_def steady_step_def ShutdownBackgroundThread_finish_def emit_def
        Dispatch_def waiters_def split: option.splits)

section \<open>Moves of the bookkeeping\<close>

lemma count_inv_with_finite: "count_inv_with h s \<Longrightarrow> finite (dom (parents s))"
  unfolding count_inv_with_def by (meson finite_lessThan finite_subset)

lemma count_inv_with_fresh: "count_inv_with h s \<Longrightarrow> nextAddr s \<le> a \<Longrightarrow> parents s a = None"
  unfolding count_inv_with_def by (meson domIff lessThan_iff not_le subsetD)

lemma count_inv_with_count_up:
  "count_inv_with h s \<Longrightarrow>
   count_inv_with (Suc h) (s\<lparr>sLiveActorCount := sLiveActorCount s + 1\<rparr>)"
  unfolding count_inv_with_def by (simp add: waiters_def)

lemma count_inv_with_count_down:
  "count_inv_with (Suc h) s \<Longrightarrow>
   count_inv_with h (s\<lparr>sLiveActorCount := sLiveActorCount s - 1\<rparr>)"
  unfolding count_inv_with_def by (simp add: waiters_def)

lemma Dispatch_steady: "\<not> is_hold r \<Longrightarrow> steady_step s (Dispatch tg r s)"
  by (simp add: steady_step_def Dispatch_def waiters_def)

lemma update_parent_steady: "steady_step s (update_parent a f s)"
proof -
  have "dom (parents (update_parent a f s)) = dom (parents s)"
    by (auto simp: update_parent_def split: if_splits)
  then show ?thesis
    by (simp add: steady_step_def) (simp add: update_parent_def waiters_def)
qed

lemma count_inv_with_Dispatch_hold:
  assumes "count_inv_with (Suc h) s" and "is_hold r"
  shows "count_inv_with h (Dispatch tg r s)"
  using assms unfolding count_inv_with_def
  by (simp add: Dispatch_def waiters_def)

lemma count_inv_with_new_actor:
  assumes "count_inv_with (Suc h) s"
  shows "count_inv_with h
           (s\<lparr>nextAddr := Suc (nextAddr s), parents := (parents s)(nextAddr s \<mapsto> p)\<rparr>)"
proof -
  let ?a = "nextAddr s"
  let ?s = "s\<lparr>nextAddr := Suc ?a, parents := (parents s)(?a \<mapsto> p)\<rparr>"
  have fr: "parents s ?a = None" by (rule count_inv_with_fresh [OF assms]) simp
  have fin: "finite (dom (parents s))" by (rule count_inv_with_finite [OF assms])
  have d: "dom (parents ?s) \<subseteq> {..<nextAddr ?s}"
    using assms unfolding count_inv_with_def by auto
  have "card (dom (parents ?s)) = Suc (card (dom (parents s)))"
    using fr fin by (simp add: domIff)
  then have n: "int (card (dom (parents ?s))) + int (task_holds (tasks ?s)) + int h + int (waiters ?s)
       \<le> sLiveActorCount ?s"
    using assms unfolding count_inv_with_def by (simp add: waiters_def)
  show ?thesis unfolding count_inv_with_def using d n by blast
qed

lemma count_inv_with_drop_actor:
  assumes "count_inv_with h s" and "parents s a \<noteq> None"
  shows "count_inv_with (Suc h) (s\<lparr>parents := (parents s)(a := None)\<rparr>)"
proof -
  let ?s = "s\<lparr>parents := (parents s)(a := None)\<rparr>"
  have fin: "finite (dom (parents s))" by (rule count_inv_with_finite [OF assms(1)])
  have d: "dom (parents ?s) \<subseteq> {..<nextAddr ?s}"
    using assms(1) unfolding count_inv_with_def by auto
  have m: "a \<in> dom (parents s)" using assms(2) by (simp add: domIff)
  have "dom (parents ?s) = dom (parents s) - {a}" by auto
  then have "card (dom (parents s)) = Suc (card (dom (parents ?s)))"
    using fin m card_Suc_Diff1 [of "dom (parents s)" a] by simp
  then have n: "int (card (dom (parents ?s))) + int (task_holds (tasks ?s)) + int (Suc h) +
        int (waiters ?s) \<le> sLiveActorCount ?s"
    using assms(1) unfolding count_inv_with_def by (simp add: waiters_def)
  show ?thesis unfolding count_inv_with_def using d n by blast
qed

lemma count_inv_with_less_hold:
  "count_inv_with (Suc h) s \<Longrightarrow> count_inv_with h s"
  unfolding count_inv_with_def by simp

lemma count_inv_with_free:
  assumes "count_inv_with h s"
  shows "count_inv_with h (s\<lparr>parents := (parents s)(a := None)\<rparr>)"
proof (cases "parents s a")
  case None
  then have "(parents s)(a := None) = parents s" by (simp add: fun_upd_idem)
  then show ?thesis using assms by simp
next
  case (Some p)
  then have "parents s a \<noteq> None" by simp
  from count_inv_with_less_hold [OF count_inv_with_drop_actor [OF assms this]]
  show ?thesis .
qed

lemma steady_step_drop:
  assumes "steady_step s s'"
  shows "steady_step (s\<lparr>parents := (parents s)(a := None)\<rparr>)
           (s'\<lparr>parents := (parents s')(a := None)\<rparr>)"
proof -
  have d: "dom (parents s') = dom (parents s)"
    using assms unfolding steady_step_def by simp
  have d': "dom (parents (s'\<lparr>parents := (parents s')(a := None)\<rparr>)) =
            dom (parents (s\<lparr>parents := (parents s)(a := None)\<rparr>))"
    using d by simp
  show ?thesis
    using assms d' unfolding steady_step_def by (simp add: waiters_def)
qed

lemma ParentImpl_ActorDestroy_explicit:
  assumes "parents s a = Some p"
  shows "ParentImpl_ActorDestroy t a s =
     s\<lparr>trace := trace s @ [BaseActorDestroy a],
       parents := (parents s)(a \<mapsto> p\<lparr>mActorDestroyed := True, mLiveActorArray := None\<rparr>),
       arrays := (case mLiveActorArray p of None \<Rightarrow> arrays s
                  | Some la \<Rightarrow> (arrays s)(la := remove1 a (arrays s la))),
       tasks := tasks s @ [(EventTarget t, DestroyRunnable a)]\<rparr>"
proof (cases "mLiveActorArray p")
  case None
  then have eq: "p\<lparr>mActorDestroyed := True, mLiveActorArray := None\<rparr> = p\<lparr>mActorDestroyed := True\<rparr>"
    by simp
  show ?thesis using assms None
    by (simp add: ParentImpl_ActorDestroy_def Let_def update_parent_def emit_def Dispatch_def eq)
next
  case (Some la)
  then show ?thesis using assms
    by (simp add: ParentImpl_ActorDestroy_def Let_def update_parent_def emit_def Dispatch_def)
qed

lemma ParentImpl_ActorDestroy_fields:
  assumes "parents s a = Some p"
  shows "\<exists>p'. parents (ParentImpl_ActorDestroy t a s) = (parents s)(a \<mapsto> p') \<and>
              mActorDestroyed p'"
    and "tasks (ParentImpl_ActorDestroy t a s) = tasks s @ [(EventTarget t, DestroyRunnable a)]"
    and "sLiveActorCount (ParentImpl_ActorDestroy t a s) = sLiveActorCount s"
    and "nextAddr (ParentImpl_ActorDestroy t a s) = nextAddr s"
    and "sPendingCallbacks (ParentImpl_ActorDestroy t a s) = sPendingCallbacks s"
    and "calm_step s (ParentImpl_ActorDestroy t a s)"
proof -
  have 1: "parents (ParentImpl_ActorDestroy t a s) =
             (parents s)(a \<mapsto> p\<lparr>mActorDestroyed := True, mLiveActorArray := None\<rparr>)"
    by (simp add: ParentImpl_ActorDestroy_explicit [OF assms])
  have 2: "mActorDestroyed (p\<lparr>mActorDestroyed := True, mLiveActorArray := None\<rparr>)" by simp
  show "\<exists>p'. parents (ParentImpl_ActorDestroy t a s) = (parents s)(a \<mapsto> p') \<and>
              mActorDestroyed p'"
    using 1 2 by blast
qed (simp_all add: ParentImpl_ActorDestroy_explicit [OF assms] calm_step_def
       observer_registrations_def)

lemma ParentImpl_ActorDestroy_steady:
  assumes "parents s a = Some p"
  shows "steady_step s (ParentImpl_ActorDestroy t a s)"
proof -
  have "a \<in> dom (parents s)" using assms by (simp add: domIff)
  then have "insert a (dom (parents s)) = dom (parents s)" by (rule insert_absorb)
  then show ?thesis
    unfolding ParentImpl_ActorDestroy_explicit [OF assms]
    by (simp add: steady_step_def waiters_def)
qed

lemma PBackgroundParent_Close_steady: "steady_step s (PBackgroundParent_Close t a s)"
proof -
  have e: "steady_step s (emit (ParentClose a) s)"
    by (simp add: steady_step_def emit_def waiters_def)
  show ?thesis
  proof (cases "parents (emit (ParentClose a) s) a")
    case None
    then show ?thesis using e by (simp add: PBackgroundParent_Close_def)
  next
    case (Some p)
    from ParentImpl_ActorDestroy_steady [OF Some, of t]
    have "steady_step s (ParentImpl_ActorDestroy t a (emit (ParentClose a) s))"
      by (rule steady_step_trans [OF e])
    then show ?thesis using e Some by (simp add: PBackgroundParent_Close_def Let_def)
  qed
qed

lemma PBackgroundParent_Close_calm: "calm_step s (PBackgroundParent_Close t a s)"
proof -
  have e: "calm_step s (emit (ParentClose a) s)"
    by (simp add: calm_step_def emit_def observer_registrations_def)
  show ?thesis
  proof (cases "parents (emit (ParentClose a) s) a")
    case None
    then show ?thesis using e by (simp add: PBackgroundParent_Close_def)
  next
    case (Some p)
    from ParentImpl_ActorDestroy_fields(6) [OF Some, of t]
    have "calm_step s (ParentImpl_ActorDestroy t a (emit (ParentClose a) s))"
      by (rule calm_step_trans [OF e])
    then show ?thesis using e Some by (simp add: PBackgroundParent_Close_def Let_def)
  qed
qed

lemma fold_Close_steady: "steady_step s (fold (PBackgroundParent_Close t) as s)"
proof (induction as arbitrary: s)
  case Nil
  show ?case by simp
next
  case (Cons a as)
  show ?case
    using steady_step_trans [OF PBackgroundParent_Close_steady Cons] by simp
qed

lemma fold_Close_count_inv:
  "count_inv_with h s \<Longrightarrow> count_inv_with h (fold (PBackgroundParent_Close t) as s)"
  by (rule steady_step_count_inv_with [OF _ fold_Close_steady])

lemma fold_Close_calm: "calm_step s (fold (PBackgroundParent_Close t) as s)"
proof (induction as arbitrary: s)
  case Nil
  show ?case by simp
next
  case (Cons a as)
  show ?case
    using calm_step_trans [OF PBackgroundParent_Close_calm Cons] by simp
qed

section \<open>The invariants along the parent-side functions\<close>

lemma MainThreadActorDestroy_decomp:
  obtains s3 s4 s5 where "steady_step s s3" and "calm_step s s3"
    and "s4 = s3\<lparr>sLiveActorCount := sLiveActorCount s3 - 1\<rparr>"
    and "(if sLiveActorCount s4 = 0 then ShutdownBackgroundThread e s4 else Inr s4) = Inr s5"
    and "MainThreadActorDestroy e a s = Inr (s5\<lparr>parents := (parents s5)(a := None)\<rparr>)"
proof -
  define s1 where "s1 = (case Option.bind (parents s a) mTransport of
                  Some tr \<Rightarrow>
                    update_parent a (\<lambda>p. p\<lparr>mTransport := None\<rparr>)
                      (Dispatch IOMessageLoop (DeleteTask tr) s)
                | None \<Rightarrow> s)"
  define s2 where "s2 = (case Option.bind (parents s1 a) mOtherProcess of
                  Some h \<Rightarrow> emit (CloseProcessHandle h) s1
                | None \<Rightarrow> s1)"
  define s3 where "s3 = update_parent a (\<lambda>p. p\<lparr>mContent := None\<rparr>) s2"
  define s4 where "s4 = s3\<lparr>sLiveActorCount := sLiveActorCount s3 - 1\<rparr>"
  have r: "MainThreadActorDestroy e a s =
      and_then (if sLiveActorCount s4 = 0 then ShutdownBackgroundThread e s4 else Inr s4)
           (\<lambda>s5. Inr (s5\<lparr>parents := (parents s5)(a := None)\<rparr>))"
    unfolding MainThreadActorDestroy_def s4_def s3_def s2_def s1_def Let_def by (rule refl)
  have st1: "steady_step s s1 \<and> calm_step s s1"
    by (cases "Option.bind (parents s a) mTransport")
       (auto simp: s1_def steady_step_def calm_step_def update_parent_def Dispatch_def waiters_def observer_registrations_def domIff
          split: option.splits if_splits)
  have st2: "steady_step s1 s2 \<and> calm_step s1 s2"
    by (cases "Option.bind (parents s1 a) mOtherProcess")
       (auto simp: s2_def steady_step_def calm_step_def emit_def waiters_def observer_registrations_def)
  have st3: "steady_step s2 s3 \<and> calm_step s2 s3"
    by (auto simp: s3_def steady_step_def calm_step_def update_parent_def waiters_def observer_registrations_def domIff
          split: option.splits if_splits)
  have a1: "steady_step s s3"
    using st1 st2 st3 by (blast intro: steady_step_trans)
  have a2: "calm_step s s3"
    using st1 st2 st3 by (blast intro: calm_step_trans)
  have "\<exists>s5. (if sLiveActorCount s4 = 0 then ShutdownBackgroundThread e s4 else Inr s4) = Inr s5"
    using ShutdownBackgroundThread_at_zero [of s4 e] by auto
  then obtain s5 where
    s5: "(if sLiveActorCount s4 = 0 then ShutdownBackgroundThread e s4 else Inr s4) = Inr s5"
    by blast
  have a4: "MainThreadActorDestroy e a s = Inr (s5\<lparr>parents := (parents s5)(a := None)\<rparr>)"
    unfolding r s5 by (simp add: and_then_def)
  show ?thesis by (rule that [OF a1 a2 s4_def s5 a4])
qed

lemma MainThreadActorDestroy_count_inv:
  assumes "count_inv_with 0 s" and "parents s a \<noteq> None"
    and "MainThreadActorDestroy e a s = Inr s'"
  shows "count_inv s'"
proof (rule MainThreadActorDestroy_decomp [of s e a])
  fix s3 s4 s5
  assume st: "steady_step s s3"
    and s4: "s4 = s3\<lparr>sLiveActorCount := sLiveActorCount s3 - 1\<rparr>"
    and s5: "(if sLiveActorCount s4 = 0 then ShutdownBackgroundThread e s4 else Inr s4) = Inr s5"
    and r: "MainThreadActorDestroy e a s = Inr (s5\<lparr>parents := (parents s5)(a := None)\<rparr>)"
  have i3: "count_inv_with 0 s3"
    by (rule steady_step_count_inv_with [OF assms(1) st])
  have "dom (parents s3) = dom (parents s)" using st by (simp add: steady_step_def)
  then have p3: "parents s3 a \<noteq> None" using assms(2) by (metis domIff)
  have eq: "s4\<lparr>parents := (parents s4)(a := None)\<rparr> =
          (s3\<lparr>parents := (parents s3)(a := None)\<rparr>)
             \<lparr>sLiveActorCount := sLiveActorCount (s3\<lparr>parents := (parents s3)(a := None)\<rparr>) - 1\<rparr>"
    by (simp add: s4)
  have i4: "count_inv_with 0 (s4\<lparr>parents := (parents s4)(a := None)\<rparr>)"
    unfolding eq by (rule count_inv_with_count_down [OF count_inv_with_drop_actor [OF i3 p3]])
  have "steady_step s4 s5"
    using s5 ShutdownBackgroundThread_steady [of e s4 s5] by (auto split: if_splits)
  from steady_step_count_inv_with [OF i4 steady_step_drop [OF this]]
  show ?thesis using r assms(3) by (simp add: count_inv_def)
qed

lemma CreateBackgroundThread_shutdown_inv:
  "shutdown_inv s \<Longrightarrow> CreateBackgroundThread e s = (ok, s1) \<Longrightarrow> shutdown_inv s1"
  by (auto simp: shutdown_inv_def CreateBackgroundThread_def Let_def emit_def Dispatch_def
        observer_registrations_def split: if_splits)

lemma ShutdownBackgroundThread_shutdown_inv:
  assumes "shutdown_inv s" and "ShutdownBackgroundThread e s = Inr s'"
  shows "shutdown_inv s'"
proof -
  from ShutdownBackgroundThread_effect [OF assms(2)] obtain evs where
    f: "sBackgroundThread s' = None" "sShutdownObserverRegistered s' = sShutdownObserverRegistered s"
       "sShutdownHasStarted s' = sShutdownHasStarted s"
       "sShutdownHasStartedChild s' = sShutdownHasStartedChild s"
       "trace s' = trace s @ evs"
       "\<forall>ev \<in> set evs. (\<exists>cb. ev = CallbackFailure cb) \<or> (\<exists>tm. ev = TimerInit tm) \<or>
                                 (\<exists>th. ev = ThreadShutdown th)"
       "spin s' = spin s \<or> (sShutdownHasStarted s \<and> sLiveActorCount s \<noteq> 0 \<and> spin s' \<noteq> None)"
    by blast
  have "\<forall>ev \<in> set evs. ev \<noteq> ObserverAdded" using f(6) by auto
  then have "filter (\<lambda>ev. ev = ObserverAdded) evs = []" by (simp add: filter_empty_conv)
  then have o: "observer_registrations s' = observer_registrations s"
    by (simp add: observer_registrations_def f(5))
  show ?thesis using assms(1) f(1,2,3,4,7) o by (auto simp: shutdown_inv_def)
qed

lemma MainThreadActorDestroy_shutdown_inv:
  assumes "shutdown_inv s" and "MainThreadActorDestroy e a s = Inr s'"
  shows "shutdown_inv s'"
proof (rule MainThreadActorDestroy_decomp [of s e a])
  fix s3 s4 s5
  assume cl: "calm_step s s3"
    and s4: "s4 = s3\<lparr>sLiveActorCount := sLiveActorCount s3 - 1\<rparr>"
    and s5: "(if sLiveActorCount s4 = 0 then ShutdownBackgroundThread e s4 else Inr s4) = Inr s5"
    and r: "MainThreadActorDestroy e a s = Inr (s5\<lparr>parents := (parents s5)(a := None)\<rparr>)"
  have "calm_step s3 s4" by (simp add: s4 calm_step_def observer_registrations_def)
  then have i4: "shutdown_inv s4"
    using calm_step_shutdown_inv [OF assms(1) calm_step_trans [OF cl]] by simp
  have i5: "shutdown_inv s5"
    using s5 i4 ShutdownBackgroundThread_shutdown_inv [of s4 e s5] by (auto split: if_splits)
  have "calm_step s5 (s5\<lparr>parents := (parents s5)(a := None)\<rparr>)"
    by (simp add: calm_step_def observer_registrations_def)
  from calm_step_shutdown_inv [OF i5 this] show ?thesis using r assms(2) by simp
qed

lemma ensure_thread_invs:
  assumes "(if sBackgroundThread s = None then CreateBackgroundThread e s else (True, s)) = (ok, s1)"
  shows "steady_step s s1" and "shutdown_inv s \<Longrightarrow> shutdown_inv s1"
proof -
  show "steady_step s s1"
    using assms CreateBackgroundThread_steady [of e s ok s1] by (auto split: if_splits)
  show "shutdown_inv s \<Longrightarrow> shutdown_inv s1"
    using assms CreateBackgroundThread_shutdown_inv [of s e ok s1] by (auto split: if_splits)
qed

lemma Alloc_count_inv:
  assumes "count_inv s" and "Alloc e aContent aTransport s = Inr (r, s')"
  shows "count_inv s'"
proof (cases rule: Alloc_cases [where e=e and s=s and aContent=aContent and aTransport=aTransport])
  case no_handle
  then show ?thesis using assms by simp
next
  case (no_thread h s1)
  from steady_step_count_inv_with [OF _ CreateBackgroundThread_steady [OF no_thread(3)]] assms(1)
  have "count_inv s1" by (simp add: count_inv_def)
  then show ?thesis using no_thread(4) assms(2) by simp
next
  case (no_dispatch h s1 s4 s5)
  have i1: "count_inv_with 0 s1"
    using steady_step_count_inv_with [OF _ ensure_thread_invs(1) [OF no_dispatch(2)]] assms(1)
    by (simp add: count_inv_def)
  have fr: "parents s1 (nextAddr s1) = None"
    by (rule count_inv_with_fresh [OF i1]) simp
  have "(parents s4)(nextAddr s1 := None) = parents s1"
    using fr by (auto simp: no_dispatch(4))
  then have eq: "s4\<lparr>parents := (parents s4)(nextAddr s1 := None)\<rparr> =
                 s1\<lparr>nextAddr := Suc (nextAddr s1)\<rparr>"
    by (simp add: no_dispatch(4))
  have "steady_step s1 (s1\<lparr>nextAddr := Suc (nextAddr s1)\<rparr>)"
    by (simp add: steady_step_def waiters_def)
  from steady_step_count_inv_with [OF i1 this]
  have i4: "count_inv_with 0 (s4\<lparr>parents := (parents s4)(nextAddr s1 := None)\<rparr>)"
    by (simp add: eq)
  have "steady_step s4 s5"
    using no_dispatch(5) ShutdownBackgroundThread_steady [of e s4 s5] by (auto split: if_splits)
  from steady_step_count_inv_with [OF i4 steady_step_drop [OF this]]
  show ?thesis using no_dispatch(6) assms(2) by (simp add: count_inv_def)
next
  case (success h s1 th)
  have i1: "count_inv_with 0 s1"
    using steady_step_count_inv_with [OF _ ensure_thread_invs(1) [OF success(2)]] assms(1)
    by (simp add: count_inv_def)
  let ?s2 = "s1\<lparr>sLiveActorCount := sLiveActorCount s1 + 1\<rparr>"
  have i2: "count_inv_with (Suc 0) ?s2" by (rule count_inv_with_count_up [OF i1])
  have "count_inv_with 0
          (?s2\<lparr>nextAddr := Suc (nextAddr ?s2),
               parents := (parents ?s2)(nextAddr ?s2 \<mapsto> ParentImpl_new_other aContent aTransport)\<rparr>)"
    by (rule count_inv_with_new_actor [OF i2])
  then have i3: "count_inv_with 0
          (s1\<lparr>sLiveActorCount := sLiveActorCount s1 + 1, nextAddr := Suc (nextAddr s1),
              parents := (parents s1)(nextAddr s1 \<mapsto> ParentImpl_new_other aContent aTransport)\<rparr>)"
    by simp
  from steady_step_count_inv_with [OF i3 Dispatch_steady, of
      "ConnectActorRunnable (nextAddr s1) aTransport h (sLiveActorsForBackgroundThread s1)"
      "EventTarget th"]
  show ?thesis using success(5) assms(2) by (simp add: count_inv_def)
qed

lemma Alloc_shutdown_inv:
  assumes "shutdown_inv s" and "Alloc e aContent aTransport s = Inr (r, s')"
  shows "shutdown_inv s'"
proof (cases rule: Alloc_cases [where e=e and s=s and aContent=aContent and aTransport=aTransport])
  case no_handle
  then show ?thesis using assms by simp
next
  case (no_thread h s1)
  from CreateBackgroundThread_shutdown_inv [OF assms(1) no_thread(3)]
  show ?thesis using no_thread(4) assms(2) by simp
next
  case (no_dispatch h s1 s4 s5)
  have i1: "shutdown_inv s1" by (rule ensure_thread_invs(2) [OF no_dispatch(2) assms(1)])
  have "calm_step s1 s4"
    by (simp add: no_dispatch(4) calm_step_def observer_registrations_def)
  from calm_step_shutdown_inv [OF i1 this] have i4: "shutdown_inv s4" .
  have i5: "shutdown_inv s5"
    using no_dispatch(5) i4 ShutdownBackgroundThread_shutdown_inv [of s4 e s5]
    by (auto split: if_splits)
  have "calm_step s5 (s5\<lparr>parents := (parents s5)(nextAddr s1 := None)\<rparr>)"
    by (simp add: calm_step_def observer_registrations_def)
  from calm_step_shutdown_inv [OF i5 this]
  show ?thesis using no_dispatch(6) assms(2) by simp
next
  case (success h s1 th)
  have i1: "shutdown_inv s1" by (rule ensure_thread_invs(2) [OF success(2) assms(1)])
  have "calm_step s1 s'"
    using success(5) assms(2)
    by (auto simp: calm_step_def observer_registrations_def Dispatch_def)
  from calm_step_shutdown_inv [OF i1 this] show ?thesis .
qed

lemma CreateActorForSameProcess_count_inv:
  assumes "count_inv s" and "CreateActorForSameProcess e cb s = (ok, s')"
  shows "count_inv s'"
proof (cases rule: CreateActorForSameProcess_cases [where s=s and e=e and cb=cb])
  case (no_thread s1)
  from steady_step_count_inv_with [OF _ CreateBackgroundThread_steady [OF no_thread(2)]] assms(1)
  have "count_inv s1" by (simp add: count_inv_def)
  then show ?thesis using no_thread(3) assms(2) by simp
next
  case (immediate s1 lp)
  have i1: "count_inv_with 0 s1"
    using steady_step_count_inv_with [OF _ ensure_thread_invs(1) [OF immediate(1)]] assms(1)
    by (simp add: count_inv_def)
  let ?s2 = "s1\<lparr>sLiveActorCount := sLiveActorCount s1 + 1\<rparr>"
  have i2: "count_inv_with (Suc 0) ?s2" by (rule count_inv_with_count_up [OF i1])
  from count_inv_with_Dispatch_hold [OF i2, of "CreateCallbackRunnable cb" "EventTarget MainThread"]
  show ?thesis using immediate(3) assms(2) by (simp add: count_inv_def Dispatch_def)
next
  case (pending s1)
  have i1: "count_inv_with 0 s1"
    using steady_step_count_inv_with [OF _ ensure_thread_invs(1) [OF pending(1)]] assms(1)
    by (simp add: count_inv_def)
  have s': "s' = s1\<lparr>sLiveActorCount := sLiveActorCount s1 + 1,
                   sPendingCallbacks :=
                     Some ((case sPendingCallbacks s1 of None \<Rightarrow> [] | Some cbs \<Rightarrow> cbs) @ [cb])\<rparr>"
    using pending(3) assms(2) by simp
  have w: "waiters s' = Suc (waiters s1)"
    by (simp add: s' waiters_def split: option.splits)
  show ?thesis
    using i1 w unfolding count_inv_def count_inv_with_def
    by (simp add: s')
qed

lemma CreateActorForSameProcess_shutdown_inv:
  assumes "shutdown_inv s" and "CreateActorForSameProcess e cb s = (ok, s')"
  shows "shutdown_inv s'"
proof (cases rule: CreateActorForSameProcess_cases [where s=s and e=e and cb=cb])
  case (no_thread s1)
  from CreateBackgroundThread_shutdown_inv [OF assms(1) no_thread(2)]
  show ?thesis using no_thread(3) assms(2) by simp
next
  case (immediate s1 lp)
  have i1: "shutdown_inv s1" by (rule ensure_thread_invs(2) [OF immediate(1) assms(1)])
  have "calm_step s1 s'"
    using immediate(3) assms(2) by (auto simp: calm_step_def observer_registrations_def)
  from calm_step_shutdown_inv [OF i1 this] show ?thesis .
next
  case (pending s1)
  have i1: "shutdown_inv s1" by (rule ensure_thread_invs(2) [OF pending(1) assms(1)])
  have "calm_step s1 s'"
    using pending(3) assms(2) by (auto simp: calm_step_def observer_registrations_def)
  from calm_step_shutdown_inv [OF i1 this] show ?thesis .
qed

section \<open>The invariants along the runnables\<close>

lemma take_task_split:
  "take_task tg ts = Some (r, rest) \<Longrightarrow>
   \<exists>pre post. ts = pre @ (tg, r) # post \<and> rest = pre @ post"
proof (induction ts arbitrary: rest)
  case Nil
  then show ?case by simp
next
  case (Cons x ts)
  obtain tg' r' where x: "x = (tg', r')" by (cases x)
  show ?case
  proof (cases "tg' = tg")
    case True
    with Cons.prems x have "r' = r" "rest = ts" by simp_all
    with True x have "x # ts = [] @ (tg, r) # ts \<and> rest = [] @ ts" by simp
    then show ?thesis by blast
  next
    case False
    with Cons.prems x obtain rest' where
      t: "take_task tg ts = Some (r, rest')" and r: "rest = (tg', r') # rest'"
      by auto
    from Cons.IH [OF t] obtain pre post where "ts = pre @ (tg, r) # post" "rest' = pre @ post"
      by blast
    with x r have "x # ts = (x # pre) @ (tg, r) # post \<and> rest = (x # pre) @ post" by simp
    then show ?thesis by blast
  qed
qed

lemma take_task_count_inv:
  assumes "count_inv s" and "take_task tg (tasks s) = Some (r, rest)"
  shows "count_inv_with (if is_hold r then 1 else 0) (s\<lparr>tasks := rest\<rparr>)"
proof -
  from take_task_split [OF assms(2)] obtain pre post where
    ts: "tasks s = pre @ (tg, r) # post" and rest: "rest = pre @ post" by blast
  have h: "task_holds (tasks s) = task_holds rest + (if is_hold r then 1 else 0)"
    by (simp add: ts rest)
  have w: "waiters (s\<lparr>tasks := rest\<rparr>) = waiters s" by (simp add: waiters_def)
  from assms(1) have
    d: "dom (parents s) \<subseteq> {..<nextAddr s}" and
    n: "int (card (dom (parents s))) + int (task_holds (tasks s)) + int (waiters s) \<le> sLiveActorCount s"
    unfolding count_inv_def count_inv_with_def by auto
  from n h have n': "int (card (dom (parents s))) + int (task_holds rest) +
                     int (if is_hold r then 1 else 0) + int (waiters s) \<le> sLiveActorCount s"
    by simp
  show ?thesis
    unfolding count_inv_with_def using d n' by (simp add: w)
qed

lemma take_task_shutdown_inv: "shutdown_inv (s\<lparr>tasks := rest\<rparr>) = shutdown_inv s"
  by (simp add: shutdown_inv_def observer_registrations_def)

lemma callback_tasks_counts [simp]:
  "task_holds (map (\<lambda>cb. (tg, CreateCallbackRunnable cb)) cbs) = length cbs"
  by (induction cbs) simp_all

lemma count_inv_with_release_waiters:
  assumes "count_inv_with h s" and "sPendingCallbacks s = Some cbs"
    and "length cbs' \<le> length cbs"
  shows "count_inv_with h
           (s\<lparr>sPendingCallbacks := Some [],
              tasks := tasks s @ map (\<lambda>cb. (tg, CreateCallbackRunnable cb)) cbs'\<rparr>)"
proof -
  have w: "waiters s = length cbs" by (simp add: waiters_def assms(2))
  show ?thesis
    using assms(1,3) unfolding count_inv_with_def
    by (simp add: waiters_def w [symmetric, unfolded waiters_def])
qed

lemma RequestMessageLoopRunnable_Run_count_inv:
  assumes "count_inv_with h s"
  shows "count_inv_with h (RequestMessageLoopRunnable_Run e t tgt lp s)"
proof -
  let ?s1 = "s\<lparr>sBackgroundThreadMessageLoop := lp\<rparr>"
  have st: "steady_step s ?s1" by (simp add: steady_step_def waiters_def)
  have i1: "count_inv_with h ?s1" by (rule steady_step_count_inv_with [OF assms st])
  consider (bg) "t \<noteq> MainThread"
    | (skip) "t = MainThread" "sBackgroundThread s = None \<or> sBackgroundThread s \<noteq> Some tgt"
    | (idle) "t = MainThread" "sBackgroundThread s = Some tgt"
        "sPendingCallbacks s = None \<or> sPendingCallbacks s = Some []"
    | (some) cbs where "t = MainThread" "sBackgroundThread s = Some tgt"
        "sPendingCallbacks s = Some cbs" "cbs \<noteq> []"
    by (cases "sPendingCallbacks s") auto
  then show ?thesis
  proof cases
    case bg
    have "steady_step s (RequestMessageLoopRunnable_Run e t tgt lp s)"
      using bg by (simp add: RequestMessageLoopRunnable_Run_def Let_def steady_step_def waiters_def Dispatch_def)
    from steady_step_count_inv_with [OF assms this] show ?thesis .
  next
    case skip
    then have "RequestMessageLoopRunnable_Run e t tgt lp s = s"
      by (auto simp: RequestMessageLoopRunnable_Run_def)
    then show ?thesis using assms by simp
  next
    case idle
    then have "RequestMessageLoopRunnable_Run e t tgt lp s = ?s1"
      by (auto simp: RequestMessageLoopRunnable_Run_def Let_def)
    then show ?thesis using i1 by simp
  next
    case (some cbs)
    from dispatch_callbacks_effect [of e 0 cbs "?s1\<lparr>sPendingCallbacks := Some []\<rparr>"]
    obtain cbs' where
      d: "dispatch_callbacks e 0 cbs (?s1\<lparr>sPendingCallbacks := Some []\<rparr>) =
            (?s1\<lparr>sPendingCallbacks := Some []\<rparr>)
              \<lparr>tasks := tasks (?s1\<lparr>sPendingCallbacks := Some []\<rparr>) @
                 map (\<lambda>cb. (EventTarget MainThread, CreateCallbackRunnable cb)) cbs'\<rparr>"
      and l: "length cbs' \<le> length cbs" by blast
    have r: "RequestMessageLoopRunnable_Run e t tgt lp s =
             dispatch_callbacks e 0 cbs (?s1\<lparr>sPendingCallbacks := Some []\<rparr>)"
      using some by (simp add: RequestMessageLoopRunnable_Run_def Let_def)
    have "sPendingCallbacks ?s1 = Some cbs" using some(3) by simp
    from count_inv_with_release_waiters [OF i1 this l, of "EventTarget MainThread"]
    show ?thesis unfolding r d by simp
  qed
qed

lemma dispatch_callbacks_calm: "calm_step s (dispatch_callbacks e n cbs s)"
proof -
  from dispatch_callbacks_effect [of e n cbs s] obtain cbs' where
    "dispatch_callbacks e n cbs s =
       s\<lparr>tasks := tasks s @ map (\<lambda>cb. (EventTarget MainThread, CreateCallbackRunnable cb)) cbs'\<rparr>"
    by blast
  then show ?thesis by (simp add: calm_step_def observer_registrations_def)
qed

lemma RequestMessageLoopRunnable_Run_calm:
  "calm_step s (RequestMessageLoopRunnable_Run e t tgt lp s)"
proof -
  have a: "\<And>s0 cbs. calm_step s s0 \<Longrightarrow> calm_step s (dispatch_callbacks e 0 cbs s0)"
    using dispatch_callbacks_calm calm_step_trans by blast
  have b: "calm_step s (s\<lparr>sBackgroundThreadMessageLoop := lp\<rparr>)"
    by (simp add: calm_step_def observer_registrations_def)
  have c: "calm_step s (s\<lparr>sBackgroundThreadMessageLoop := lp, sPendingCallbacks := Some []\<rparr>)"
    by (simp add: calm_step_def observer_registrations_def)
  have d: "calm_step s (s\<lparr>sBackgroundPRThread := Some t\<rparr>)"
    by (simp add: calm_step_def observer_registrations_def)
  have e: "\<And>r. calm_step s (Dispatch (EventTarget MainThread) r (s\<lparr>sBackgroundPRThread := Some t\<rparr>))"
    by (simp add: calm_step_def observer_registrations_def Dispatch_def)
  show ?thesis
    unfolding RequestMessageLoopRunnable_Run_def Let_def
    using a [OF c] b d e by (simp split: option.splits)
qed

lemma CreateCallbackRunnable_Run_count_inv:
  assumes "count_inv_with (Suc 0) s"
  shows "count_inv (CreateCallbackRunnable_Run e cb s)"
proof -
  obtain addr tgt where cb: "cb = ParentCreateCallback addr tgt" by (cases cb)
  let ?a = "nextAddr s"
  let ?s1 = "s\<lparr>nextAddr := Suc ?a, parents := (parents s)(?a \<mapsto> ParentImpl_new)\<rparr>"
  have i1: "count_inv_with 0 ?s1"
    by (rule count_inv_with_new_actor [OF assms])
  let ?s0 = "emit (CallbackSuccess cb ?a (sBackgroundThreadMessageLoop ?s1)) ?s1"
  let ?c = "nextAddr ?s0"
  let ?s2 = "?s0\<lparr>nextAddr := Suc ?c, children := (children ?s0)(?c \<mapsto> ChildImpl_new)\<rparr>"
  have "steady_step ?s1 ?s2"
    by (simp add: steady_step_def waiters_def emit_def)
  from steady_step_count_inv_with [OF i1 this] have i2: "count_inv_with 0 ?s2" .
  show ?thesis
  proof (cases "e_DispatchOpen e")
    case True
    then have r: "CreateCallbackRunnable_Run e cb s =
        Dispatch (EventTarget tgt)
          (OpenMainProcessActorRunnable ?c ?a (sBackgroundThreadMessageLoop ?s1)) ?s2"
      by (simp add: CreateCallbackRunnable_Run_def cb Let_def)
    from steady_step_count_inv_with [OF i2 Dispatch_steady, of
        "OpenMainProcessActorRunnable ?c ?a (sBackgroundThreadMessageLoop ?s1)" "EventTarget tgt"]
    show ?thesis unfolding r count_inv_def by simp
  next
    case False
    let ?s3 = "?s2\<lparr>parents := (parents ?s2)(?a := None)\<rparr>"
    from False have r: "CreateCallbackRunnable_Run e cb s =
        ?s3\<lparr>children := (children ?s2)(?c := None)\<rparr>"
      by (simp add: CreateCallbackRunnable_Run_def cb Let_def)
    have i3: "count_inv_with 0 ?s3"
      by (rule count_inv_with_free [OF i2])
    have "steady_step ?s3 (?s3\<lparr>children := (children ?s2)(?c := None)\<rparr>)"
      by (simp add: steady_step_def waiters_def)
    from steady_step_count_inv_with [OF i3 this]
    show ?thesis unfolding r count_inv_def .
  qed
qed

lemma CreateCallbackRunnable_Run_calm: "calm_step s (CreateCallbackRunnable_Run e cb s)"
  by (cases cb)
    (simp add: CreateCallbackRunnable_Run_def Let_def calm_step_def observer_registrations_def
      emit_def Dispatch_def)

lemma ForceCloseBackgroundActorsRunnable_Run_count_inv:
  assumes "count_inv_with (Suc 0) s"
    and "ForceCloseBackgroundActorsRunnable_Run t la s = Inr s'"
  shows "count_inv s'"
proof (cases "t = MainThread")
  case True
  with assms(2) have "s' = s\<lparr>sLiveActorCount := sLiveActorCount s - 1\<rparr>"
    by (simp add: ForceCloseBackgroundActorsRunnable_Run_def)
  with count_inv_with_count_down [OF assms(1)] show ?thesis by (simp add: count_inv_def)
next
  case False
  with assms(2) obtain arr where la: "la = Some arr"
    by (cases la) (simp_all add: ForceCloseBackgroundActorsRunnable_Run_def)
  let ?s1 = "fold (PBackgroundParent_Close t) (arrays s arr) s"
  have r: "s' = Dispatch (EventTarget MainThread) (ForceCloseBackgroundActorsRunnable la) ?s1"
    using assms(2) False la
    by (cases "arrays s arr = []")
      (simp_all add: ForceCloseBackgroundActorsRunnable_Run_def Let_def)
  have "count_inv_with (Suc 0) ?s1" by (rule fold_Close_count_inv [OF assms(1)])
  from count_inv_with_Dispatch_hold [OF this, of "ForceCloseBackgroundActorsRunnable la"
      "EventTarget MainThread"]
  show ?thesis unfolding r count_inv_def by simp
qed

lemma ForceCloseBackgroundActorsRunnable_Run_calm:
  assumes "ForceCloseBackgroundActorsRunnable_Run t la s = Inr s'"
  shows "calm_step s s'"
proof (cases "t = MainThread")
  case True
  with assms show ?thesis
    by (auto simp: ForceCloseBackgroundActorsRunnable_Run_def calm_step_def
        observer_registrations_def)
next
  case False
  with assms obtain arr where la: "la = Some arr"
    by (cases la) (simp_all add: ForceCloseBackgroundActorsRunnable_Run_def)
  let ?s1 = "fold (PBackgroundParent_Close t) (arrays s arr) s"
  have r: "s' = Dispatch (EventTarget MainThread) (ForceCloseBackgroundActorsRunnable la) ?s1"
    using assms False la
    by (cases "arrays s arr = []")
      (simp_all add: ForceCloseBackgroundActorsRunnable_Run_def Let_def)
  have "calm_step ?s1 s'"
    unfolding r by (simp add: calm_step_def observer_registrations_def Dispatch_def)
  from calm_step_trans [OF fold_Close_calm this] show ?thesis .
qed

lemma update_parent_calm: "calm_step s (update_parent a f s)"
  by (simp add: update_parent_def calm_step_def observer_registrations_def)

lemma Destroy_steady: "steady_step s (Destroy a s)"
  unfolding Destroy_def by (rule Dispatch_steady) simp

lemma Destroy_calm: "calm_step s (Destroy a s)"
  by (simp add: Destroy_def Dispatch_def calm_step_def observer_registrations_def)

lemma ConnectActorRunnable_Run_steady:
  assumes "ConnectActorRunnable_Run e a tr h la s = Inr s'"
  shows "steady_step s s'"
proof (cases "e_Open e")
  case False
  with assms have "s' = Destroy a s" by (simp add: ConnectActorRunnable_Run_def)
  then show ?thesis by (simp add: Destroy_steady)
next
  case True
  with assms obtain arr where la: "la = Some arr"
    by (cases la) (simp_all add: ConnectActorRunnable_Run_def Let_def)
  let ?s1 = "update_parent a (\<lambda>p. p\<lparr>mChannelOpened := True, mOtherProcess := Some h\<rparr>) s"
  let ?s2 = "update_parent a (\<lambda>p. p\<lparr>mLiveActorArray := Some arr\<rparr>) ?s1"
  have r: "s' = ?s2\<lparr>arrays := (arrays ?s1)(arr := arrays ?s1 arr @ [a])\<rparr>"
    using assms True la by (simp add: ConnectActorRunnable_Run_def Let_def)
  have a: "steady_step s ?s2"
    by (rule steady_step_trans [OF update_parent_steady update_parent_steady])
  have "steady_step ?s2 s'"
    unfolding r by (simp add: steady_step_def waiters_def)
  from steady_step_trans [OF a this] show ?thesis .
qed

lemma ConnectActorRunnable_Run_calm:
  assumes "ConnectActorRunnable_Run e a tr h la s = Inr s'"
  shows "calm_step s s'"
  using assms
  by (auto simp: ConnectActorRunnable_Run_def Let_def Destroy_def Dispatch_def update_parent_def
      calm_step_def observer_registrations_def split: if_splits option.splits)

lemma OpenMainProcessActorRunnable_Run_decomp:
  assumes "OpenMainProcessActorRunnable_Run e t c a s = Inr s'"
  obtains (closed) s1 s2 where "\<not> e_Open e" "quiet_step s s1" "quiet_step (Destroy a s1) s2"
      "s' = s2\<lparr>children := (children s2)(c := None), parents := (parents s2)(a := None)\<rparr>"
  | (opened) s1 where "e_Open e" "quiet_step s s1"
      "quiet_step (update_parent a (\<lambda>p. p\<lparr>mChannelOpened := True\<rparr>) s1) s'"
proof -
  from assms obtain cb s1 where g: "GetNextCallback t s = Inr (cb, s1)"
    by (cases "GetNextCallback t s")
      (auto simp: OpenMainProcessActorRunnable_Run_def and_then_def)
  have q1: "quiet_step s s1" by (rule GetNextCallback_quiet [OF g])
  show ?thesis
  proof (cases "e_Open e")
    case False
    with assms g obtain s2 where
      d: "drain ActorFailed t cb (Destroy a s1) = Inr s2" and
      s': "s' = s2\<lparr>children := (children s2)(c := None), parents := (parents s2)(a := None)\<rparr>"
      by (cases "drain ActorFailed t cb (Destroy a s1)")
        (auto simp: OpenMainProcessActorRunnable_Run_def and_then_def)
    from d have "quiet_step (Destroy a s1) s2" by (rule drain_quiet [rotated]) simp
    with False q1 show ?thesis using s' by (rule closed)
  next
    case True
    let ?s2 = "update_parent a (\<lambda>p. p\<lparr>mChannelOpened := True\<rparr>) s1"
    from assms g True obtain info where
      tl: "threadLocal ?s2 t = Some info" and
      d: "drain (\<lambda>cb. ActorCreated cb c) t cb
            (SetBoundThread t c (?s2\<lparr>threadLocal := (threadLocal ?s2)
                (t \<mapsto> info\<lparr>mActor := Some c\<rparr>)\<rparr>)) = Inr s'"
      by (cases "threadLocal ?s2 t")
        (auto simp: OpenMainProcessActorRunnable_Run_def and_then_def Let_def)
    have qa: "quiet_step ?s2 (SetBoundThread t c (?s2\<lparr>threadLocal := (threadLocal ?s2)
                (t \<mapsto> info\<lparr>mActor := Some c\<rparr>)\<rparr>))"
      by (simp add: SetBoundThread_def quiet_defs)
    have qb: "quiet_step (SetBoundThread t c (?s2\<lparr>threadLocal := (threadLocal ?s2)
                (t \<mapsto> info\<lparr>mActor := Some c\<rparr>)\<rparr>)) s'"
      by (rule drain_quiet [OF _ d]) simp
    from True q1 quiet_step_trans [OF qa qb] show ?thesis by (rule opened)
  qed
qed

lemma OpenMainProcessActorRunnable_Run_count_inv:
  assumes "count_inv_with 0 s"
    and "OpenMainProcessActorRunnable_Run e t c a s = Inr s'"
  shows "count_inv s'"
  using assms(2)
proof (cases rule: OpenMainProcessActorRunnable_Run_decomp)
  case (closed s1 s2)
  from quiet_step_count_inv_with [OF assms(1) closed(2)]
  have "count_inv_with 0 s1" .
  from steady_step_count_inv_with [OF this Destroy_steady]
  have "count_inv_with 0 (Destroy a s1)" .
  from quiet_step_count_inv_with [OF this closed(3)]
  have i2: "count_inv_with 0 s2" .
  let ?s3 = "s2\<lparr>parents := (parents s2)(a := None)\<rparr>"
  have i3: "count_inv_with 0 ?s3" by (rule count_inv_with_free [OF i2])
  have eq: "s' = ?s3\<lparr>children := (children s2)(c := None)\<rparr>" by (simp add: closed(4))
  have "steady_step ?s3 s'" unfolding eq by (simp add: steady_step_def waiters_def)
  from steady_step_count_inv_with [OF i3 this]
  show ?thesis by (simp add: count_inv_def)
next
  case (opened s1)
  from quiet_step_count_inv_with [OF assms(1) opened(2)]
  have "count_inv_with 0 s1" .
  from steady_step_count_inv_with [OF this update_parent_steady]
  have "count_inv_with 0 (update_parent a (\<lambda>p. p\<lparr>mChannelOpened := True\<rparr>) s1)" .
  from quiet_step_count_inv_with [OF this opened(3)]
  show ?thesis by (simp add: count_inv_def)
qed

lemma OpenMainProcessActorRunnable_Run_calm:
  assumes "OpenMainProcessActorRunnable_Run e t c a s = Inr s'"
  shows "calm_step s s'"
  using assms
proof (cases rule: OpenMainProcessActorRunnable_Run_decomp)
  case (closed s1 s2)
  have "calm_step s2 s'"
    by (simp add: closed(4) calm_step_def observer_registrations_def)
  from calm_step_trans [OF quiet_step_calm [OF closed(2)]
      calm_step_trans [OF Destroy_calm
        calm_step_trans [OF quiet_step_calm [OF closed(3)] this]]]
  show ?thesis .
next
  case (opened s1)
  from calm_step_trans [OF quiet_step_calm [OF opened(2)]
      calm_step_trans [OF update_parent_calm quiet_step_calm [OF opened(3)]]]
  show ?thesis .
qed

lemma OpenProtocolOnMainThread_decomp:
  assumes "OpenProtocolOnMainThread e tg s = Inr (r, s')"
  obtains (same_process) ok s1 cb where
      "CreateActorForSameProcess e cb (s\<lparr>nextAddr := Suc (nextAddr s)\<rparr>) = (ok, s1)"
      "quiet_step s1 s'"
  | (other_process) "quiet_step s s'"
proof (cases "isMainProcess s")
  case True
  obtain ok s1 where
    c: "CreateActorForSameProcess e (ParentCreateCallback (nextAddr s) tg)
          (s\<lparr>nextAddr := Suc (nextAddr s)\<rparr>) = (ok, s1)"
    by (cases "CreateActorForSameProcess e (ParentCreateCallback (nextAddr s) tg)
          (s\<lparr>nextAddr := Suc (nextAddr s)\<rparr>)")
  from assms True c have "s' = (if ok then s1 else DispatchFailureCallback e tg s1)"
    by (auto simp: OpenProtocolOnMainThread_def Let_def split: if_splits)
  then have "quiet_step s1 s'" using DispatchFailureCallback_quiet [of s1 e tg] by simp
  with c show ?thesis by (rule same_process)
next
  case False
  with assms have "quiet_step s s'"
    by (auto simp: OpenProtocolOnMainThread_def Let_def quiet_defs split: if_splits)
  then show ?thesis by (rule other_process)
qed

lemma OpenProtocolOnMainThread_count_inv:
  assumes "count_inv s" and "OpenProtocolOnMainThread e tg s = Inr (r, s')"
  shows "count_inv s'"
  using assms(2)
proof (cases rule: OpenProtocolOnMainThread_decomp)
  case (same_process ok s1 cb)
  have "steady_step s (s\<lparr>nextAddr := Suc (nextAddr s)\<rparr>)"
    by (simp add: steady_step_def waiters_def)
  from steady_step_count_inv_with [OF _ this] assms(1)
  have "count_inv (s\<lparr>nextAddr := Suc (nextAddr s)\<rparr>)" by (simp add: count_inv_def)
  from CreateActorForSameProcess_count_inv [OF this same_process(1)]
  have "count_inv_with 0 s1" by (simp add: count_inv_def)
  from quiet_step_count_inv_with [OF this same_process(2)]
  show ?thesis by (simp add: count_inv_def)
next
  case other_process
  from quiet_step_count_inv_with [OF _ this] assms(1)
  show ?thesis by (simp add: count_inv_def)
qed

lemma OpenProtocolOnMainThread_shutdown_inv:
  assumes "shutdown_inv s" and "OpenProtocolOnMainThread e tg s = Inr (r, s')"
  shows "shutdown_inv s'"
  using assms(2)
proof (cases rule: OpenProtocolOnMainThread_decomp)
  case (same_process ok s1 cb)
  have "calm_step s (s\<lparr>nextAddr := Suc (nextAddr s)\<rparr>)"
    by (simp add: calm_step_def observer_registrations_def)
  from calm_step_shutdown_inv [OF assms(1) this]
  have "shutdown_inv (s\<lparr>nextAddr := Suc (nextAddr s)\<rparr>)" .
  from CreateActorForSameProcess_shutdown_inv [OF this same_process(1)]
  have "shutdown_inv s1" .
  from quiet_step_shutdown_inv [OF this same_process(2)] show ?thesis .
next
  case other_process
  from quiet_step_shutdown_inv [OF assms(1) this] show ?thesis .
qed

lemma GetOrCreateForCurrentThread_decomp:
  assumes "GetOrCreateForCurrentThread e t cb s = Inr (r, s')"
  obtains (to_open) s1 where "quiet_step s s1" "OpenProtocolOnMainThread e t s1 = Inr (r, s')"
  | (queued) "quiet_step s s'"
proof (cases "threadLocal s t")
  case (Some info)
  with assms have "quiet_step s s'"
    by (auto simp: GetOrCreateForCurrentThread_def Let_def quiet_defs split: if_splits)
  then show ?thesis by (rule queued)
next
  case None
  let ?s1 = "s\<lparr>threadLocal := (threadLocal s)
               (t \<mapsto> \<lparr>mActor = None, mCallbacks = [cb], mConsumerThreadLocal = False\<rparr>)\<rparr>"
  have q: "quiet_step s ?s1" by (simp add: quiet_defs)
  show ?thesis
  proof (cases "e_SetThreadPrivate e \<and> t = MainThread")
    case True
    with assms None have "OpenProtocolOnMainThread e t ?s1 = Inr (r, s')"
      by (simp add: GetOrCreateForCurrentThread_def Let_def)
    with q show ?thesis by (rule to_open)
  next
    case False
    with assms None have "quiet_step s s'"
      by (auto simp: GetOrCreateForCurrentThread_def Let_def quiet_defs split: if_splits)
    then show ?thesis by (rule queued)
  qed
qed

lemma GetOrCreateForCurrentThread_count_inv:
  assumes "count_inv s" and "GetOrCreateForCurrentThread e t cb s = Inr (r, s')"
  shows "count_inv s'"
  using assms(2)
proof (cases rule: GetOrCreateForCurrentThread_decomp)
  case (to_open s1)
  from quiet_step_count_inv_with [OF _ to_open(1)] assms(1)
  have "count_inv s1" by (simp add: count_inv_def)
  from OpenProtocolOnMainThread_count_inv [OF this to_open(2)] show ?thesis .
next
  case queued
  from quiet_step_count_inv_with [OF _ this] assms(1)
  show ?thesis by (simp add: count_inv_def)
qed

lemma GetOrCreateForCurrentThread_shutdown_inv:
  assumes "shutdown_inv s" and "GetOrCreateForCurrentThread e t cb s = Inr (r, s')"
  shows "shutdown_inv s'"
  using assms(2)
proof (cases rule: GetOrCreateForCurrentThread_decomp)
  case (to_open s1)
  from OpenProtocolOnMainThread_shutdown_inv
    [OF quiet_step_shutdown_inv [OF assms(1) to_open(1)] to_open(2)]
  show ?thesis .
next
  case queued
  from quiet_step_shutdown_inv [OF assms(1) this] show ?thesis .
qed

lemma CreateActorRunnable_Run_invs:
  assumes "CreateActorRunnable_Run e tg s = Inr s'"
  shows "count_inv s \<Longrightarrow> count_inv s'" and "shutdown_inv s \<Longrightarrow> shutdown_inv s'"
proof -
  from assms obtain ok where o: "OpenProtocolOnMainThread e tg s = Inr (ok, s')"
    by (cases "OpenProtocolOnMainThread e tg s")
      (auto simp: CreateActorRunnable_Run_def and_then_def)
  show "count_inv s \<Longrightarrow> count_inv s'" by (rule OpenProtocolOnMainThread_count_inv [OF _ o])
  show "shutdown_inv s \<Longrightarrow> shutdown_inv s'"
    by (rule OpenProtocolOnMainThread_shutdown_inv [OF _ o])
qed

section \<open>The invariants along a run\<close>

lemma count_inv_with_forget: "count_inv_with h s \<Longrightarrow> count_inv s"
proof (induction h)
  case 0
  then show ?case by (simp add: count_inv_def)
next
  case (Suc h)
  from Suc.IH [OF count_inv_with_less_hold [OF Suc.prems]] show ?case .
qed

lemma run_task_count_inv:
  assumes "count_inv_with (if is_hold r then 1 else 0) s"
    and "run_task e t r s = Inr s'"
  shows "count_inv s'"
proof (cases r)
  case (RequestMessageLoopRunnable tgt lp)
  with assms have "count_inv_with 0 s" "s' = RequestMessageLoopRunnable_Run e t tgt lp s"
    by simp_all
  with RequestMessageLoopRunnable_Run_count_inv [of 0 s e t tgt lp]
  show ?thesis by (simp add: count_inv_def)
next
  case ShutdownBackgroundThreadRunnable
  with assms have i: "count_inv_with 0 s" and
    s': "s' = ShutdownBackgroundThreadRunnable_Run t s" by simp_all
  have "steady_step s s'"
    by (simp add: s' ShutdownBackgroundThreadRunnable_Run_def steady_step_def
        waiters_def)
  from steady_step_count_inv_with [OF i this] show ?thesis by (simp add: count_inv_def)
next
  case (ForceCloseBackgroundActorsRunnable la)
  with assms have "count_inv_with (Suc 0) s"
    "ForceCloseBackgroundActorsRunnable_Run t la s = Inr s'" by simp_all
  then show ?thesis by (rule ForceCloseBackgroundActorsRunnable_Run_count_inv)
next
  case (CreateCallbackRunnable cb)
  with assms have "count_inv_with (Suc 0) s" "s' = CreateCallbackRunnable_Run e cb s"
    by simp_all
  with CreateCallbackRunnable_Run_count_inv [of s e cb] show ?thesis by simp
next
  case (ConnectActorRunnable a tr h la)
  with assms have i: "count_inv_with 0 s" and
    "ConnectActorRunnable_Run e a tr h la s = Inr s'" by simp_all
  from steady_step_count_inv_with [OF i ConnectActorRunnable_Run_steady [OF this(2)]]
  show ?thesis by (simp add: count_inv_def)
next
  case (DestroyRunnable a)
  with assms have i: "count_inv_with 0 s" and "s' = Destroy a s"
    by (simp_all split: if_splits)
  with steady_step_count_inv_with [OF i Destroy_steady [of s a]]
  show ?thesis by (simp add: count_inv_def)
next
  case (MainThreadActorDestroyRunnable a)
  with assms have "count_inv_with 0 s" "parents s a \<noteq> None"
    "MainThreadActorDestroy e a s = Inr s'"
    by (simp_all split: if_splits)
  then show ?thesis by (rule MainThreadActorDestroy_count_inv)
next
  case (DeleteTask tr)
  with assms have i: "count_inv_with 0 s" and s': "s' = emit (TransportDeleted tr) s"
    by simp_all
  have "steady_step s s'" by (simp add: s' emit_def steady_step_def waiters_def)
  from steady_step_count_inv_with [OF i this] show ?thesis by (simp add: count_inv_def)
next
  case (CreateActorRunnable tgt)
  with assms have "count_inv s" "CreateActorRunnable_Run e tgt s = Inr s'"
    by (simp_all add: count_inv_def)
  with CreateActorRunnable_Run_invs(1) show ?thesis by blast
next
  case AlreadyCreatedCallbackRunnable
  with assms have i: "count_inv_with 0 s" and
    "AlreadyCreatedCallbackRunnable_Run t s = Inr s'" by simp_all
  from quiet_step_count_inv_with [OF i AlreadyCreatedCallbackRunnable_Run_quiet [OF this(2)]]
  show ?thesis by (simp add: count_inv_def)
next
  case FailedCreateCallbackRunnable
  with assms have i: "count_inv_with 0 s" and
    "FailedCreateCallbackRunnable_Run t s = Inr s'" by simp_all
  from quiet_step_count_inv_with [OF i FailedCreateCallbackRunnable_Run_quiet [OF this(2)]]
  show ?thesis by (simp add: count_inv_def)
next
  case (OpenChildProcessActorRunnable c tr h)
  with assms have i: "count_inv_with 0 s" and
    "OpenChildProcessActorRunnable_Run e t c s = Inr s'" by simp_all
  from quiet_step_count_inv_with [OF i OpenChildProcessActorRunnable_Run_quiet [OF this(2)]]
  show ?thesis by (simp add: count_inv_def)
next
  case (OpenMainProcessActorRunnable c a lp)
  with assms have "count_inv_with 0 s"
    "OpenMainProcessActorRunnable_Run e t c a s = Inr s'" by simp_all
  then show ?thesis by (rule OpenMainProcessActorRunnable_Run_count_inv)
next
  case (ReleaseRunnable c)
  with assms have i: "count_inv_with 0 s" and
    s': "s' = s\<lparr>children := (children s)(c := None)\<rparr>" by simp_all
  have "steady_step s s'" by (simp add: s' steady_step_def waiters_def)
  from steady_step_count_inv_with [OF i this] show ?thesis by (simp add: count_inv_def)
qed

lemma run_task_shutdown_inv:
  assumes "shutdown_inv s" and "run_task e t r s = Inr s'"
  shows "shutdown_inv s'"
proof (cases r)
  case (RequestMessageLoopRunnable tgt lp)
  with assms(2) have "s' = RequestMessageLoopRunnable_Run e t tgt lp s" by simp
  with calm_step_shutdown_inv [OF assms(1) RequestMessageLoopRunnable_Run_calm [of s e t tgt lp]]
  show ?thesis by simp
next
  case ShutdownBackgroundThreadRunnable
  with assms(2) have "calm_step s s'"
    by (cases "sBackgroundPRThread s = Some t")
      (auto simp: ShutdownBackgroundThreadRunnable_Run_def calm_step_def
        observer_registrations_def)
  from calm_step_shutdown_inv [OF assms(1) this] show ?thesis .
next
  case (ForceCloseBackgroundActorsRunnable la)
  with assms(2) have "ForceCloseBackgroundActorsRunnable_Run t la s = Inr s'" by simp
  from calm_step_shutdown_inv [OF assms(1) ForceCloseBackgroundActorsRunnable_Run_calm [OF this]]
  show ?thesis .
next
  case (CreateCallbackRunnable cb)
  with assms(2) have "s' = CreateCallbackRunnable_Run e cb s" by simp
  with calm_step_shutdown_inv [OF assms(1) CreateCallbackRunnable_Run_calm [of s e cb]]
  show ?thesis by simp
next
  case (ConnectActorRunnable a tr h la)
  with assms(2) have "ConnectActorRunnable_Run e a tr h la s = Inr s'" by simp
  from calm_step_shutdown_inv [OF assms(1) ConnectActorRunnable_Run_calm [OF this]]
  show ?thesis .
next
  case (DestroyRunnable a)
  with assms(2) have "s' = Destroy a s" by (simp split: if_splits)
  with calm_step_shutdown_inv [OF assms(1) Destroy_calm [of s a]] show ?thesis by simp
next
  case (MainThreadActorDestroyRunnable a)
  with assms(2) have "MainThreadActorDestroy e a s = Inr s'" by (simp split: if_splits)
  from MainThreadActorDestroy_shutdown_inv [OF assms(1) this] show ?thesis .
next
  case (DeleteTask tr)
  with assms(2) have "calm_step s s'"
    by (auto simp: emit_def calm_step_def observer_registrations_def)
  from calm_step_shutdown_inv [OF assms(1) this] show ?thesis .
next
  case (CreateActorRunnable tgt)
  with assms(2) have "CreateActorRunnable_Run e tgt s = Inr s'" by simp
  from CreateActorRunnable_Run_invs(2) [OF this assms(1)] show ?thesis .
next
  case AlreadyCreatedCallbackRunnable
  with assms(2) have "AlreadyCreatedCallbackRunnable_Run t s = Inr s'" by simp
  from quiet_step_shutdown_inv [OF assms(1) AlreadyCreatedCallbackRunnable_Run_quiet [OF this]]
  show ?thesis .
next
  case FailedCreateCallbackRunnable
  with assms(2) have "FailedCreateCallbackRunnable_Run t s = Inr s'" by simp
  from quiet_step_shutdown_inv [OF assms(1) FailedCreateCallbackRunnable_Run_quiet [OF this]]
  show ?thesis .
next
  case (OpenChildProcessActorRunnable c tr h)
  with assms(2) have "OpenChildProcessActorRunnable_Run e t c s = Inr s'" by simp
  from quiet_step_shutdown_inv [OF assms(1) OpenChildProcessActorRunnable_Run_quiet [OF this]]
  show ?thesis .
next
  case (OpenMainProcessActorRunnable c a lp)
  with assms(2) have "OpenMainProcessActorRunnable_Run e t c a s = Inr s'" by simp
  from calm_step_shutdown_inv [OF assms(1) OpenMainProcessActorRunnable_Run_calm [OF this]]
  show ?thesis .
next
  case (ReleaseRunnable c)
  with assms(2) have "calm_step s s'"
    by (auto simp: calm_step_def observer_registrations_def)
  from calm_step_shutdown_inv [OF assms(1) this] show ?thesis .
qed

lemma ChildImpl_Shutdown_started: "sShutdownHasStartedChild (ChildImpl_Shutdown s)"
proof (cases "sShutdownHasStartedChild s")
  case True
  then show ?thesis by (simp add: ChildImpl_Shutdown_def)
next
  case False
  from SetThreadPrivate_null_quiet [of "s\<lparr>sShutdownHasStartedChild := True\<rparr>" MainThread]
  show ?thesis using False by (simp add: ChildImpl_Shutdown_def quiet_step_def)
qed

lemma ShutdownObserver_Observe_count_inv:
  assumes "count_inv s" and "ShutdownObserver_Observe e s = Inr s'"
  shows "count_inv s'"
proof -
  let ?s1 = "s\<lparr>sShutdownHasStarted := True\<rparr>"
  have a: "steady_step s ?s1" by (simp add: steady_step_def waiters_def)
  have b: "steady_step ?s1 (ChildImpl_Shutdown ?s1)"
    by (rule quiet_step_steady [OF ChildImpl_Shutdown_quiet])
  have c: "steady_step (ChildImpl_Shutdown ?s1) s'"
    using assms(2) unfolding ShutdownObserver_Observe_def by (rule ShutdownBackgroundThread_steady)
  from steady_step_count_inv_with [OF _ steady_step_trans [OF a steady_step_trans [OF b c]]]
    assms(1)
  show ?thesis by (simp add: count_inv_def)
qed

lemma ShutdownObserver_Observe_shutdown_inv:
  assumes "shutdown_inv s" and "ShutdownObserver_Observe e s = Inr s'"
  shows "shutdown_inv s'"
proof -
  let ?s1 = "s\<lparr>sShutdownHasStarted := True\<rparr>"
  let ?s2 = "ChildImpl_Shutdown ?s1"
  have q: "quiet_step ?s1 ?s2" by (rule ChildImpl_Shutdown_quiet)
  have st: "sShutdownHasStarted ?s2" using q by (simp add: quiet_step_def)
  have ch: "sShutdownHasStartedChild ?s2" by (rule ChildImpl_Shutdown_started)
  have fl: "sShutdownObserverRegistered ?s2 = sShutdownObserverRegistered s"
    using q by (simp add: quiet_step_def)
  have "observer_registrations ?s2 = observer_registrations ?s1"
    using q by (simp add: quiet_step_def)
  also have "\<dots> = observer_registrations s" by (simp add: observer_registrations_def)
  finally have ob: "observer_registrations ?s2 = (if sShutdownObserverRegistered s then 1 else 0)"
    using assms(1) by (simp add: shutdown_inv_def)
  from assms(2) have r: "ShutdownBackgroundThread e ?s2 = Inr s'"
    by (simp add: ShutdownObserver_Observe_def)
  note eff = ShutdownBackgroundThread_effect [OF r]
  from eff obtain evs where
    tr: "trace s' = trace ?s2 @ evs" and
    evs: "\<forall>ev \<in> set evs. (\<exists>cb. ev = CallbackFailure cb) \<or> (\<exists>tm. ev = TimerInit tm) \<or>
                                 (\<exists>th. ev = ThreadShutdown th)"
    by blast
  have "filter (\<lambda>ev. ev = ObserverAdded) evs = []"
    unfolding filter_empty_conv using evs by auto
  then have ob': "observer_registrations s' = observer_registrations ?s2"
    by (simp add: observer_registrations_def tr)
  from eff have "sBackgroundThread s' = None" "sShutdownHasStartedChild s' = sShutdownHasStartedChild ?s2"
    "sShutdownHasStarted s' = sShutdownHasStarted ?s2"
    "sShutdownObserverRegistered s' = sShutdownObserverRegistered ?s2"
    by simp_all
  then show ?thesis
    unfolding shutdown_inv_def using st ch fl ob ob' by simp
qed

lemma TimerFires_count_inv:
  assumes "count_inv s" and "perform e TimerFires s = Inr s'"
  shows "count_inv s'"
proof (cases "spin s")
  case None
  with assms show ?thesis by simp
next
  case (Some f)
  show ?thesis
  proof (cases "timerPending f")
    case False
    with Some assms show ?thesis by simp
  next
    case True
    let ?s1 = "s\<lparr>spin := Some (f\<lparr>timerPending := False\<rparr>)\<rparr>"
    have "steady_step s ?s1" by (simp add: steady_step_def waiters_def)
    from steady_step_count_inv_with [OF _ this] assms(1)
    have "count_inv_with 0 ?s1" by (simp add: count_inv_def)
    from count_inv_with_Dispatch_hold [OF count_inv_with_count_up [OF this], of
        "ForceCloseBackgroundActorsRunnable (mLiveActors (closure f))"
        "EventTarget (mThread (closure f))"]
    have "count_inv (ShutdownTimerCallback (closure f) ?s1)"
      by (simp add: ShutdownTimerCallback_def Let_def count_inv_def)
    with Some True assms(2) show ?thesis by simp
  qed
qed

lemma TimerFires_shutdown_inv:
  assumes "shutdown_inv s" and "perform e TimerFires s = Inr s'"
  shows "shutdown_inv s'"
  using assms
  by (auto simp: shutdown_inv_def ShutdownTimerCallback_def Let_def Dispatch_def
      observer_registrations_def split: option.splits if_splits)

lemma spin_check_shutdown_inv: "shutdown_inv s \<Longrightarrow> shutdown_inv (spin_check s)"
  by (auto simp: spin_check_def shutdown_inv_def ShutdownBackgroundThread_finish_def emit_def
      Dispatch_def observer_registrations_def split: option.splits)

lemma perform_count_inv:
  assumes "count_inv s" and "perform e a s = Inr s'"
  shows "count_inv s'"
proof (cases a)
  case (RunTask t)
  show ?thesis
  proof (cases "take_task (EventTarget t) (tasks s)")
    case None
    with RunTask assms show ?thesis by simp
  next
    case (Some x)
    obtain r rest where x: "x = (r, rest)" by (cases x)
    from Some x RunTask assms(2) have "run_task e t r (s\<lparr>tasks := rest\<rparr>) = Inr s'" by simp
    from run_task_count_inv [OF take_task_count_inv [OF assms(1) Some [unfolded x]] this]
    show ?thesis .
  qed
next
  case RunIOTask
  show ?thesis
  proof (cases "take_task IOMessageLoop (tasks s)")
    case None
    with RunIOTask assms show ?thesis by simp
  next
    case (Some x)
    obtain r rest where x: "x = (r, rest)" by (cases x)
    from count_inv_with_forget [OF take_task_count_inv [OF assms(1) Some [unfolded x]]]
    have i: "count_inv_with 0 (s\<lparr>tasks := rest\<rparr>)" by (simp add: count_inv_def)
    have "steady_step (s\<lparr>tasks := rest\<rparr>) s'"
      using Some x RunIOTask assms(2)
      by (cases r) (auto simp: steady_step_def waiters_def emit_def)
    from steady_step_count_inv_with [OF i this] show ?thesis by (simp add: count_inv_def)
  qed
next
  case (CallAlloc c tr)
  show ?thesis
  proof (cases "isMainProcess s")
    case False
    with CallAlloc assms show ?thesis by simp
  next
    case True
    with CallAlloc assms(2) obtain r where "Alloc e c tr s = Inr (r, s')"
      by (cases "Alloc e c tr s") (auto simp: and_then_def)
    from Alloc_count_inv [OF assms(1) this] show ?thesis .
  qed
next
  case (CallChildAlloc tr)
  show ?thesis
  proof (cases "isMainProcess s")
    case True
    with CallChildAlloc assms show ?thesis by simp
  next
    case False
    with CallChildAlloc assms(2) obtain r where "ChildImpl_Alloc e tr s = Inr (r, s')"
      by (cases "ChildImpl_Alloc e tr s") (auto simp: and_then_def)
    from quiet_step_count_inv_with [OF _ ChildImpl_Alloc_quiet [OF this]] assms(1)
    show ?thesis by (simp add: count_inv_def)
  qed
next
  case (CallGetOrCreateForCurrentThread t cb)
  with assms(2) obtain r where "GetOrCreateForCurrentThread e t cb s = Inr (r, s')"
    by (cases "GetOrCreateForCurrentThread e t cb s") (auto simp: and_then_def)
  from GetOrCreateForCurrentThread_count_inv [OF assms(1) this] show ?thesis .
next
  case (CallCloseForCurrentThread t)
  with assms(2) have "CloseForCurrentThread t s = Inr s'" by simp
  from quiet_step_count_inv_with [OF _ CloseForCurrentThread_quiet [OF this]] assms(1)
  show ?thesis by (simp add: count_inv_def)
next
  case NotifyShutdown
  show ?thesis
  proof (cases "sShutdownObserverRegistered s \<and> \<not> sShutdownHasStarted s")
    case True
    with NotifyShutdown assms(2) have "ShutdownObserver_Observe e s = Inr s'" by simp
    from ShutdownObserver_Observe_count_inv [OF assms(1) this] show ?thesis .
  next
    case False
    with NotifyShutdown assms show ?thesis by auto
  qed
next
  case NotifyChildShutdown
  with assms(2) have "s' = ChildImpl_Shutdown s" by simp
  with quiet_step_count_inv_with [OF _ ChildImpl_Shutdown_quiet [of s]] assms(1)
  show ?thesis by (simp add: count_inv_def)
next
  case TimerFires
  with assms show ?thesis using TimerFires_count_inv by blast
next
  case (CallActorDestroy t b)
  show ?thesis
  proof (cases "parents s b")
    case None
    with CallActorDestroy assms show ?thesis by simp
  next
    case (Some p)
    show ?thesis
    proof (cases "mChannelOpened p")
      case True
      with Some CallActorDestroy assms(2) have "s' = ParentImpl_ActorDestroy t b s" by simp
      with steady_step_count_inv_with [OF _ ParentImpl_ActorDestroy_steady [OF Some, of t]] assms(1)
      show ?thesis by (simp add: count_inv_def)
    next
      case False
      with Some CallActorDestroy assms show ?thesis by auto
    qed
  qed
next
  case (CallChildActorDestroy c)
  have "quiet_step s s'"
    using CallChildActorDestroy assms(2) ChildImpl_ActorDestroy_quiet [of s c]
    by (auto split: option.splits if_splits)
  from quiet_step_count_inv_with [OF _ this] assms(1) show ?thesis by (simp add: count_inv_def)
qed

lemma perform_shutdown_inv:
  assumes "shutdown_inv s" and "perform e a s = Inr s'"
  shows "shutdown_inv s'"
proof (cases a)
  case (RunTask t)
  show ?thesis
  proof (cases "take_task (EventTarget t) (tasks s)")
    case None
    with RunTask assms show ?thesis by simp
  next
    case (Some x)
    obtain r rest where x: "x = (r, rest)" by (cases x)
    from Some x RunTask assms(2) have "run_task e t r (s\<lparr>tasks := rest\<rparr>) = Inr s'" by simp
    from run_task_shutdown_inv [OF _ this] assms(1) show ?thesis
      by (simp add: take_task_shutdown_inv)
  qed
next
  case RunIOTask
  show ?thesis
  proof (cases "take_task IOMessageLoop (tasks s)")
    case None
    with RunIOTask assms show ?thesis by simp
  next
    case (Some x)
    obtain r rest where x: "x = (r, rest)" by (cases x)
    have "calm_step s s'"
      using Some x RunIOTask assms(2)
      by (cases r) (auto simp: calm_step_def observer_registrations_def emit_def)
    from calm_step_shutdown_inv [OF assms(1) this] show ?thesis .
  qed
next
  case (CallAlloc c tr)
  show ?thesis
  proof (cases "isMainProcess s")
    case False
    with CallAlloc assms show ?thesis by simp
  next
    case True
    with CallAlloc assms(2) obtain r where "Alloc e c tr s = Inr (r, s')"
      by (cases "Alloc e c tr s") (auto simp: and_then_def)
    from Alloc_shutdown_inv [OF assms(1) this] show ?thesis .
  qed
next
  case (CallChildAlloc tr)
  show ?thesis
  proof (cases "isMainProcess s")
    case True
    with CallChildAlloc assms show ?thesis by simp
  next
    case False
    with CallChildAlloc assms(2) obtain r where "ChildImpl_Alloc e tr s = Inr (r, s')"
      by (cases "ChildImpl_Alloc e tr s") (auto simp: and_then_def)
    from quiet_step_shutdown_inv [OF assms(1) ChildImpl_Alloc_quiet [OF this]]
    show ?thesis .
  qed
next
  case (CallGetOrCreateForCurrentThread t cb)
  with assms(2) obtain r where "GetOrCreateForCurrentThread e t cb s = Inr (r, s')"
    by (cases "GetOrCreateForCurrentThread e t cb s") (auto simp: and_then_def)
  from GetOrCreateForCurrentThread_shutdown_inv [OF assms(1) this] show ?thesis .
next
  case (CallCloseForCurrentThread t)
  with assms(2) have "CloseForCurrentThread t s = Inr s'" by simp
  from quiet_step_shutdown_inv [OF assms(1) CloseForCurrentThread_quiet [OF this]]
  show ?thesis .
next
  case NotifyShutdown
  show ?thesis
  proof (cases "sShutdownObserverRegistered s \<and> \<not> sShutdownHasStarted s")
    case True
    with NotifyShutdown assms(2) have "ShutdownObserver_Observe e s = Inr s'" by simp
    from ShutdownObserver_Observe_shutdown_inv [OF assms(1) this] show ?thesis .
  next
    case False
    with NotifyShutdown assms show ?thesis by auto
  qed
next
  case NotifyChildShutdown
  with assms(2) have "s' = ChildImpl_Shutdown s" by simp
  with quiet_step_shutdown_inv [OF assms(1) ChildImpl_Shutdown_quiet [of s]]
  show ?thesis by simp
next
  case TimerFires
  with assms show ?thesis using TimerFires_shutdown_inv by blast
next
  case (CallActorDestroy t b)
  show ?thesis
  proof (cases "parents s b")
    case None
    with CallActorDestroy assms show ?thesis by simp
  next
    case (Some p)
    show ?thesis
    proof (cases "mChannelOpened p")
      case True
      with Some CallActorDestroy assms(2) have "s' = ParentImpl_ActorDestroy t b s" by simp
      with calm_step_shutdown_inv [OF assms(1) ParentImpl_ActorDestroy_fields(6) [OF Some]]
      show ?thesis by simp
    next
      case False
      with Some CallActorDestroy assms show ?thesis by auto
    qed
  qed
next
  case (CallChildActorDestroy c)
  have "quiet_step s s'"
    using CallChildActorDestroy assms(2) ChildImpl_ActorDestroy_quiet [of s c]
    by (auto split: option.splits if_splits)
  from quiet_step_shutdown_inv [OF assms(1) this] show ?thesis .
qed

lemma step_invs:
  assumes "step e a s = Inr s'" and "count_inv s" and "shutdown_inv s"
  shows "count_inv s'" and "shutdown_inv s'"
proof -
  from assms(1) obtain s1 where p: "perform e a s = Inr s1" and
    s': "s' = (if on_main_thread a then spin_check s1 else s1)"
    by (cases "perform e a s") (auto simp: step_def and_then_def)
  from perform_count_inv [OF assms(2) p] have c: "count_inv s1" .
  from perform_shutdown_inv [OF assms(3) p] have h: "shutdown_inv s1" .
  from steady_step_count_inv_with [OF _ spin_check_steady [of s1]] c
  have "count_inv (spin_check s1)" by (simp add: count_inv_def)
  with c show "count_inv s'" by (simp add: s')
  from spin_check_shutdown_inv [OF h] h show "shutdown_inv s'" by (simp add: s')
qed

lemma exec_invs:
  "exec acts s = Inr s' \<Longrightarrow> count_inv s \<Longrightarrow> shutdown_inv s \<Longrightarrow> count_inv s' \<and> shutdown_inv s'"
proof (induction acts arbitrary: s)
  case Nil
  then show ?case by simp
next
  case (Cons x acts)
  obtain e a where x: "x = (e, a)" by (cases x)
  from Cons.prems(1) x obtain s1 where st: "step e a s = Inr s1" and ex: "exec acts s1 = Inr s'"
    by (cases "step e a s") (auto simp: and_then_def)
  from Cons.IH [OF ex step_invs [OF st Cons.prems(2,3)]] show ?case .
qed

lemma init_state_invs: "count_inv (init_state b)" "shutdown_inv (init_state b)"
  by (simp_all add: count_inv_def count_inv_with_def shutdown_inv_def init_state_def waiters_def observer_registrations_def)

lemma reachable_invs:
  assumes "reachable s"
  shows "count_inv s" and "shutdown_inv s"
proof -
  from assms obtain b acts where "exec acts (init_state b) = Inr s"
    unfolding reachable_def by blast
  from exec_invs [OF this init_state_invs] show "count_inv s" and "shutdown_inv s" by simp_all
qed

section \<open>No creation after shutdown has started\<close>

text \<open>Claim C1. In every state the process can reach with \<open>sShutdownHasStarted\<close> set,
  \<open>CreateBackgroundThread\<close> returns false and leaves the whole state as it is, so no thread
  is spawned; \<open>Alloc\<close> returns null and \<open>CreateActorForSameProcess\<close> returns false, both
  without any change of state, so no actor is constructed or returned; and
  \<open>OpenProtocolOnMainThread\<close>, the entry of a consumer's request, stops the process.\<close>

theorem no_creation_after_shutdown_started:
  assumes "reachable s" and "sShutdownHasStarted s"
  shows "CreateBackgroundThread e s = (False, s) \<and>
         Alloc e aContent aTransport s = Inr (None, s) \<and>
         CreateActorForSameProcess e cb s = (False, s) \<and>
         OpenProtocolOnMainThread e tg s = Inl MozCrash"
proof -
  from reachable_invs(2) [OF assms(1)] assms(2) have
    n: "sBackgroundThread s = None" and c: "sShutdownHasStartedChild s"
    by (simp_all add: shutdown_inv_def)
  have a: "CreateBackgroundThread e s = (False, s)"
    using assms(2) by (simp add: CreateBackgroundThread_def)
  have b: "Alloc e aContent aTransport s = Inr (None, s)"
    by (cases "e_OpenProcessHandle e") (simp_all add: Alloc_def n a)
  have d: "CreateActorForSameProcess e cb s = (False, s)"
    by (simp add: CreateActorForSameProcess_def n a)
  have f: "OpenProtocolOnMainThread e tg s = Inl MozCrash"
    using c by (simp add: OpenProtocolOnMainThread_def)
  from a b d f show ?thesis by simp
qed

theorem no_creation_after_shutdown_started_witness:
  "\<exists>s. exec (take 4 other_process_force_run) (init_state True) = Inr s \<and>
       sShutdownHasStarted s \<and>
       CreateBackgroundThread env_ok s = (False, s) \<and>
       Alloc env_ok 8 9 s = Inr (None, s) \<and>
       CreateActorForSameProcess env_ok (ParentCreateCallback 0 MainThread) s = (False, s) \<and>
       OpenProtocolOnMainThread env_ok MainThread s = Inl MozCrash"
proof -
  have "map_sum id sShutdownHasStarted
          (exec (take 4 other_process_force_run) (init_state True)) = Inr True"
    by code_simp
  then obtain s where
    x: "exec (take 4 other_process_force_run) (init_state True) = Inr s" and
    h: "sShutdownHasStarted s"
    by (cases "exec (take 4 other_process_force_run) (init_state True)") auto
  from x have r: "reachable s" unfolding reachable_def by blast
  from no_creation_after_shutdown_started [OF r h, of env_ok 8 9
      "ParentCreateCallback 0 MainThread" MainThread] x h
  show ?thesis by blast
qed

section \<open>The shutdown observer and the shutdown timer\<close>

lemma CreateBackgroundThread_events:
  assumes "CreateBackgroundThread e s = (ok, s1)"
  shows "trace s1 = trace s @ new_events s s1"
    and "sShutdownObserverRegistered s \<longrightarrow>
           sShutdownObserverRegistered s1 \<and> ObserverAdded \<notin> set (new_events s s1)"
    and "ok \<longrightarrow> sShutdownObserverRegistered s1 \<and> sShutdownTimer s1 \<noteq> None"
    and "sShutdownTimer s = None \<longrightarrow> (\<exists>th. ThreadCreated th \<in> set (new_events s s1)) \<longrightarrow>
           hd (new_events s s1) = TimerCreated (nextAddr s)"
    and "sShutdownTimer s \<noteq> None \<longrightarrow> (\<forall>tm. TimerCreated tm \<notin> set (new_events s s1))"
    and "\<not> e_NewNamedThread e \<longrightarrow> (\<forall>th. ThreadCreated th \<notin> set (new_events s s1))"
  using assms
  by (auto simp: CreateBackgroundThread_def Let_def emit_def Dispatch_def new_events_def
      split: if_splits)

lemma CreateBackgroundThread_registers:
  assumes "CreateBackgroundThread e s = (ok, s1)" and "\<not> sShutdownHasStarted s"
    and "sShutdownTimer s \<noteq> None \<or> e_CreateTimer e"
    and "sShutdownObserverRegistered s \<or> e_GetObserverService e \<and> e_AddObserver e"
  shows "sShutdownObserverRegistered s1"
  using assms
  by (auto simp: CreateBackgroundThread_def Let_def emit_def Dispatch_def split: if_splits)

lemma reachable_init_state: "reachable (init_state b)"
  unfolding reachable_def by (rule exI [of _ b], rule exI [of _ "[]"]) simp

text \<open>Claim C8, as the code has it. Whatever the process did before, after a call of
  \<open>CreateBackgroundThread\<close> the observer has been added exactly once when the flag
  \<open>sShutdownObserverRegistered\<close> is set and never when it is not; a call that finds the
  flag set adds no observer and leaves the flag set; a call that returns true leaves the
  observer registered and the timer allocated; a call that is not refused and gets through
  \<open>AddObserver\<close> leaves the observer registered, whatever happens to the thread; and where
  no timer was allocated and the call spawns a thread, the first thing the call does is to
  create the timer, while a call that finds a timer creates none.\<close>

theorem CreateBackgroundThread_registers_observer_once:
  assumes "reachable s" and "CreateBackgroundThread e s = (ok, s1)"
  shows "observer_registrations s1 = (if sShutdownObserverRegistered s1 then 1 else 0) \<and>
         (sShutdownObserverRegistered s \<longrightarrow>
            sShutdownObserverRegistered s1 \<and> ObserverAdded \<notin> set (new_events s s1)) \<and>
         (ok \<longrightarrow> sShutdownObserverRegistered s1 \<and> sShutdownTimer s1 \<noteq> None) \<and>
         (\<not> sShutdownHasStarted s \<and> (sShutdownTimer s \<noteq> None \<or> e_CreateTimer e) \<and>
          e_GetObserverService e \<and> e_AddObserver e \<longrightarrow> sShutdownObserverRegistered s1) \<and>
         (sShutdownTimer s = None \<longrightarrow> (\<exists>th. ThreadCreated th \<in> set (new_events s s1)) \<longrightarrow>
            hd (new_events s s1) = TimerCreated (nextAddr s)) \<and>
         (sShutdownTimer s \<noteq> None \<longrightarrow> (\<forall>tm. TimerCreated tm \<notin> set (new_events s s1)))"
proof -
  from CreateBackgroundThread_shutdown_inv [OF reachable_invs(2) [OF assms(1)] assms(2)]
  have a: "observer_registrations s1 = (if sShutdownObserverRegistered s1 then 1 else 0)"
    by (simp add: shutdown_inv_def)
  have b: "\<not> sShutdownHasStarted s \<and> (sShutdownTimer s \<noteq> None \<or> e_CreateTimer e) \<and>
          e_GetObserverService e \<and> e_AddObserver e \<longrightarrow> sShutdownObserverRegistered s1"
    using CreateBackgroundThread_registers [OF assms(2)] by blast
  from a b CreateBackgroundThread_events(2-5) [OF assms(2)] show ?thesis by blast
qed

theorem CreateBackgroundThread_registers_observer_once_witness:
  "reachable (init_state True) \<and>
   fst (CreateBackgroundThread env_ok (init_state True)) \<and>
   sShutdownTimer (init_state True) = None \<and>
   ThreadCreated (BackgroundThread 1) \<in>
     set (new_events (init_state True) (snd (CreateBackgroundThread env_ok (init_state True)))) \<and>
   sShutdownObserverRegistered (snd (CreateBackgroundThread env_ok (init_state True))) \<and>
   observer_registrations (snd (CreateBackgroundThread env_ok (init_state True))) = 1 \<and>
   sShutdownTimer (snd (CreateBackgroundThread env_ok (init_state True))) \<noteq> None \<and>
   hd (new_events (init_state True) (snd (CreateBackgroundThread env_ok (init_state True)))) =
     TimerCreated 0"
proof -
  let ?r = "CreateBackgroundThread env_ok (init_state True)"
  have c: "?r = (fst ?r, snd ?r)" by simp
  have ok: "fst ?r"
    by (simp add: CreateBackgroundThread_def env_ok_def init_state_def Let_def emit_def
        Dispatch_def)
  have t: "sShutdownTimer (init_state True) = None" by (simp add: init_state_def)
  have n: "nextAddr (init_state True) = 0" by (simp add: init_state_def)
  have th: "ThreadCreated (BackgroundThread 1) \<in> set (new_events (init_state True) (snd ?r))"
    by (simp add: CreateBackgroundThread_def env_ok_def init_state_def Let_def emit_def
        Dispatch_def new_events_def)
  from CreateBackgroundThread_registers_observer_once [OF reachable_init_state c] ok t th n
  show ?thesis using reachable_init_state by auto
qed

text \<open>The claim as stated fails where the thread cannot be spawned: the first call in a
  fresh process returns false, and it has created timer 0, added the observer and set the
  flag.\<close>

theorem CreateBackgroundThread_failed_spawn_counterexample:
  "fst (CreateBackgroundThread (env_ok\<lparr>e_NewNamedThread := False\<rparr>) (init_state True)) = False \<and>
   sShutdownObserverRegistered
     (snd (CreateBackgroundThread (env_ok\<lparr>e_NewNamedThread := False\<rparr>) (init_state True))) \<and>
   trace (snd (CreateBackgroundThread (env_ok\<lparr>e_NewNamedThread := False\<rparr>) (init_state True))) =
     [TimerCreated 0, ObserverAdded]"
  by (simp add: CreateBackgroundThread_def env_ok_def init_state_def emit_def Let_def)

section \<open>Mild steps\<close>

lemma force_pending_simps [simp]:
  "\<not> force_pending []"
  "force_pending (ts @ us) \<longleftrightarrow> force_pending ts \<or> force_pending us"
  "force_pending ((tg, r) # ts) \<longleftrightarrow> is_force r \<or> force_pending ts"
  by (auto simp: force_pending_def)




lemma no_reuse_refl [simp]: "no_reuse s s"
  by (simp add: no_reuse_def)


lemma mild_step_refl [simp]: "mild_step s s"
  by (simp add: mild_step_def)







lemma Dispatch_mild: "\<not> is_force r \<Longrightarrow> mild_step s (Dispatch tg r s)"
  by (simp add: mild_step_def no_reuse_def Dispatch_def)




























section \<open>The count of live actors\<close>










section \<open>The forced close\<close>

lemma PBackgroundParent_Close_effect:
  "sLiveActorCount (PBackgroundParent_Close t a s) = sLiveActorCount s \<and>
   (\<exists>evs. trace (PBackgroundParent_Close t a s) = trace s @ ParentClose a # evs)"
proof (cases "parents s a")
  case None
  then show ?thesis by (simp add: PBackgroundParent_Close_def Let_def emit_def)
next
  case (Some p)
  then have p: "parents (emit (ParentClose a) s) a = Some p" by (simp add: emit_def)
  show ?thesis
  proof (cases "mChannelOpened p \<and> \<not> mActorDestroyed p")
    case False
    with Some show ?thesis by (auto simp: PBackgroundParent_Close_def Let_def emit_def)
  next
    case True
    with Some have "PBackgroundParent_Close t a s =
        ParentImpl_ActorDestroy t a (emit (ParentClose a) s)"
      by (simp add: PBackgroundParent_Close_def Let_def emit_def)
    then show ?thesis
      unfolding ParentImpl_ActorDestroy_explicit [OF p] by (simp add: emit_def)
  qed
qed

lemma fold_Close_effect:
  "sLiveActorCount (fold (PBackgroundParent_Close t) as s) = sLiveActorCount s \<and>
   (\<exists>evs. trace (fold (PBackgroundParent_Close t) as s) = trace s @ evs \<and>
          (\<forall>a \<in> set as. ParentClose a \<in> set evs))"
proof (induction as arbitrary: s)
  case Nil
  then show ?case by simp
next
  case (Cons a as)
  let ?s1 = "PBackgroundParent_Close t a s"
  from PBackgroundParent_Close_effect [of t a s] obtain evs1 where
    c1: "sLiveActorCount ?s1 = sLiveActorCount s" and
    t1: "trace ?s1 = trace s @ ParentClose a # evs1" by blast
  from Cons.IH [of ?s1] obtain evs2 where
    c2: "sLiveActorCount (fold (PBackgroundParent_Close t) as ?s1) = sLiveActorCount ?s1" and
    t2: "trace (fold (PBackgroundParent_Close t) as ?s1) = trace ?s1 @ evs2" and
    m2: "\<forall>b \<in> set as. ParentClose b \<in> set evs2" by blast
  have "trace (fold (PBackgroundParent_Close t) (a # as) s) =
          trace s @ (ParentClose a # evs1 @ evs2)" by (simp add: t2 t1)
  moreover have "\<forall>b \<in> set (a # as). ParentClose b \<in> set (ParentClose a # evs1 @ evs2)"
    using m2 by auto
  moreover have "sLiveActorCount (fold (PBackgroundParent_Close t) (a # as) s) = sLiveActorCount s"
    by (simp add: c2 c1)
  ultimately show ?case by blast
qed

lemma ForceCloseBackgroundActorsRunnable_Run_closes:
  assumes "t \<noteq> MainThread" and "ForceCloseBackgroundActorsRunnable_Run t (Some la) s = Inr s'"
  shows "sLiveActorCount s' = sLiveActorCount s"
    and "\<forall>a \<in> set (arrays s la). ParentClose a \<in> set (new_events s s')"
    and "last (tasks s') = (EventTarget MainThread, ForceCloseBackgroundActorsRunnable (Some la))"
proof -
  let ?s1 = "fold (PBackgroundParent_Close t) (arrays s la) s"
  have r: "s' = Dispatch (EventTarget MainThread)
                  (ForceCloseBackgroundActorsRunnable (Some la)) ?s1"
    using assms
    by (cases "arrays s la = []")
      (simp_all add: ForceCloseBackgroundActorsRunnable_Run_def Let_def)
  from fold_Close_effect [of t "arrays s la" s] obtain evs where
    c: "sLiveActorCount ?s1 = sLiveActorCount s" and
    tr: "trace ?s1 = trace s @ evs" and
    m: "\<forall>a \<in> set (arrays s la). ParentClose a \<in> set evs" by blast
  show "sLiveActorCount s' = sLiveActorCount s" by (simp add: r Dispatch_def c)
  have "new_events s s' = evs" by (simp add: new_events_def r Dispatch_def tr)
  with m show "\<forall>a \<in> set (arrays s la). ParentClose a \<in> set (new_events s s')" by simp
  show "last (tasks s') = (EventTarget MainThread, ForceCloseBackgroundActorsRunnable (Some la))"
    by (simp add: r Dispatch_def)
qed

lemma task_holds_member:
  assumes "(tg, r) \<in> set ts" and "is_hold r"
  shows "0 < task_holds ts"
proof -
  from assms have "\<exists>x \<in> set ts. is_hold (snd x)" by force
  then have "filter (\<lambda>x. is_hold (snd x)) ts \<noteq> []" by (simp add: filter_empty_conv)
  then show ?thesis by (simp add: task_holds_def)
qed

lemma count_inv_pending_hold:
  assumes "count_inv s" and "(tg, r) \<in> set (tasks s)" and "is_hold r"
  shows "0 < sLiveActorCount s" and "spin_check s = s"
proof -
  from task_holds_member [OF assms(2,3)] have "0 < int (task_holds (tasks s))" by simp
  with assms(1) show p: "0 < sLiveActorCount s"
    unfolding count_inv_def count_inv_with_def by linarith
  then show "spin_check s = s" by (simp add: spin_check_def split: option.splits)
qed

text \<open>Claim C10, as the code has it. The timer callback leaves \<open>sLiveActorCount\<close> one
  higher and queues the force-close task for the thread of its closure. Run on that thread,
  the task leaves the count as it is, issues \<open>Close()\<close> to every actor that is in the
  array of live actors when it starts, and then queues itself for the main thread; run on
  the main thread it does nothing but take one off the count. And in every state the
  process can reach, as long as a force-close task is queued for either thread the count is
  positive, so the test of the loop in \<open>ShutdownBackgroundThread\<close> keeps the main thread
  waiting.\<close>

theorem force_close_keeps_shutdown_waiting:
  assumes "reachable s"
  shows "sLiveActorCount (ShutdownTimerCallback c s0) = sLiveActorCount s0 + 1 \<and>
         tasks (ShutdownTimerCallback c s0) =
           tasks s0 @ [(EventTarget (mThread c),
                        ForceCloseBackgroundActorsRunnable (mLiveActors c))] \<and>
         (t \<noteq> MainThread \<and> ForceCloseBackgroundActorsRunnable_Run t (Some la) s0 = Inr s1 \<longrightarrow>
            sLiveActorCount s1 = sLiveActorCount s0 \<and>
            (\<forall>a \<in> set (arrays s0 la). ParentClose a \<in> set (new_events s0 s1)) \<and>
            last (tasks s1) =
              (EventTarget MainThread, ForceCloseBackgroundActorsRunnable (Some la))) \<and>
         ForceCloseBackgroundActorsRunnable_Run MainThread arr s0 =
           Inr (s0\<lparr>sLiveActorCount := sLiveActorCount s0 - 1\<rparr>) \<and>
         ((tg, ForceCloseBackgroundActorsRunnable arr') \<in> set (tasks s) \<longrightarrow>
            0 < sLiveActorCount s \<and> spin_check s = s)"
proof -
  have a: "sLiveActorCount (ShutdownTimerCallback c s0) = sLiveActorCount s0 + 1"
    by (simp add: ShutdownTimerCallback_def Let_def Dispatch_def)
  have b: "tasks (ShutdownTimerCallback c s0) =
           tasks s0 @ [(EventTarget (mThread c),
                        ForceCloseBackgroundActorsRunnable (mLiveActors c))]"
    by (simp add: ShutdownTimerCallback_def Let_def Dispatch_def)
  have d: "t \<noteq> MainThread \<and> ForceCloseBackgroundActorsRunnable_Run t (Some la) s0 = Inr s1 \<longrightarrow>
            sLiveActorCount s1 = sLiveActorCount s0 \<and>
            (\<forall>a \<in> set (arrays s0 la). ParentClose a \<in> set (new_events s0 s1)) \<and>
            last (tasks s1) =
              (EventTarget MainThread, ForceCloseBackgroundActorsRunnable (Some la))"
    using ForceCloseBackgroundActorsRunnable_Run_closes [of t la s0 s1] by blast
  have f: "ForceCloseBackgroundActorsRunnable_Run MainThread arr s0 =
           Inr (s0\<lparr>sLiveActorCount := sLiveActorCount s0 - 1\<rparr>)"
    by (simp add: ForceCloseBackgroundActorsRunnable_Run_def)
  have g: "(tg, ForceCloseBackgroundActorsRunnable arr') \<in> set (tasks s) \<longrightarrow>
            0 < sLiveActorCount s \<and> spin_check s = s"
    using count_inv_pending_hold [OF reachable_invs(1) [OF assms], of tg
        "ForceCloseBackgroundActorsRunnable arr'"] by simp
  from a b d f g show ?thesis by blast
qed

theorem force_close_keeps_shutdown_waiting_witness:
  "\<exists>s s1.
     exec other_process_force_run (init_state True) = Inr s \<and>
     take_task (EventTarget (BackgroundThread 1)) (tasks s) =
       Some (ForceCloseBackgroundActorsRunnable (Some 2),
             [(EventTarget MainThread,
               RequestMessageLoopRunnable (BackgroundThread 1)
                 (Some (MessageLoopOf (BackgroundThread 1))))]) \<and>
     arrays s 2 = [3] \<and> 0 < sLiveActorCount s \<and> spin_check s = s \<and>
     ForceCloseBackgroundActorsRunnable_Run (BackgroundThread 1) (Some 2)
       (s\<lparr>tasks := [(EventTarget MainThread,
                      RequestMessageLoopRunnable (BackgroundThread 1)
                        (Some (MessageLoopOf (BackgroundThread 1))))]\<rparr>) = Inr s1 \<and>
     sLiveActorCount s1 = sLiveActorCount s \<and>
     ParentClose 3 \<in> set (new_events s s1) \<and>
     last (tasks s1) = (EventTarget MainThread, ForceCloseBackgroundActorsRunnable (Some 2))"
proof -
  let ?rest = "[(EventTarget MainThread,
                 RequestMessageLoopRunnable (BackgroundThread 1)
                   (Some (MessageLoopOf (BackgroundThread 1))))]"
  have "map_sum id (\<lambda>s. (tasks s, arrays s 2))
          (exec other_process_force_run (init_state True)) =
        Inr (?rest @ [(EventTarget (BackgroundThread 1),
                       ForceCloseBackgroundActorsRunnable (Some 2))], [3])"
    by code_simp
  then obtain s where
    x: "exec other_process_force_run (init_state True) = Inr s" and
    ts: "tasks s = ?rest @ [(EventTarget (BackgroundThread 1),
                       ForceCloseBackgroundActorsRunnable (Some 2))]" and
    ar: "arrays s 2 = [3]"
    by (cases "exec other_process_force_run (init_state True)") auto
  from x have r: "reachable s" unfolding reachable_def by blast
  let ?s0 = "s\<lparr>tasks := ?rest\<rparr>"
  have tk: "take_task (EventTarget (BackgroundThread 1)) (tasks s) =
       Some (ForceCloseBackgroundActorsRunnable (Some 2), ?rest)"
    by (simp add: ts)
  have m: "(EventTarget (BackgroundThread 1), ForceCloseBackgroundActorsRunnable (Some 2))
             \<in> set (tasks s)" by (simp add: ts)
  obtain s1 where
    run: "ForceCloseBackgroundActorsRunnable_Run (BackgroundThread 1) (Some 2) ?s0 = Inr s1"
    by (simp add: ForceCloseBackgroundActorsRunnable_Run_def Let_def)
  have ne: "new_events ?s0 s1 = new_events s s1" by (simp add: new_events_def)
  from force_close_keeps_shutdown_waiting [OF r, of _ ?s0 "BackgroundThread 1" 2 s1 _
      "EventTarget (BackgroundThread 1)" "Some 2"] run m ar ne
  have "0 < sLiveActorCount s \<and> spin_check s = s \<and>
        sLiveActorCount s1 = sLiveActorCount s \<and>
        ParentClose 3 \<in> set (new_events s s1) \<and>
        last (tasks s1) = (EventTarget MainThread, ForceCloseBackgroundActorsRunnable (Some 2))"
    by auto
  with x tk ar run show ?thesis by blast
qed

text \<open>The claim as stated fails on \<open>same_process_force_run\<close>. When the shutdown starts
  the count is 1, for parent actor 4 of the worker thread; the timer callback makes it 2,
  and after both legs of the force-close task it is 1 again, no force-close task is left,
  and actor 4 is still live with its channel open: \<open>Close()\<close> was never issued to it, since
  a parent actor of the same process is not entered in the array of live actors.\<close>

theorem force_close_same_process_counterexample:
  "map_sum id sLiveActorCount (exec (take 7 same_process_force_run) (init_state True)) = Inr 1 \<and>
   map_sum id sLiveActorCount (exec (take 8 same_process_force_run) (init_state True)) = Inr 2 \<and>
   map_sum id (\<lambda>s. (sLiveActorCount s, task_holds (tasks s),
                    map_option (\<lambda>p. mChannelOpened p \<and> \<not> mActorDestroyed p) (parents s 4),
                    filter (\<lambda>ev. ev = ParentClose 4) (trace s)))
     (exec same_process_force_run (init_state True)) = Inr (1, 0, Some True, [])"
  by code_simp

end
